theory Spec2Isabelle
  imports Complex_Main "HOL-Library.Char_ord" "HOL-Library.List_Lexorder"
    "HOL-Library.Product_Lexorder" "HOL-Library.AList"
begin

section \<open>Text, tokens and integers as Python handles them\<close>

text \<open>
  The program is \<^verbatim>\<open>src/sgns_implementation.py\<close>. Text is modelled as \<open>string\<close>, one
  \<open>char\<close> per code point, for code points below 256. Strings are ordered as Python orders
  \<^verbatim>\<open>str\<close>: lexicographically by code point (\<open>Char_ord\<close>, \<open>List_Lexorder\<close>);
  tuples are ordered lexicographically (\<open>Product_Lexorder\<close>). Python integers are unbounded
  and are \<open>int\<close> or \<open>nat\<close>; Python floats are idealised as \<open>real\<close>.
\<close>

datatype error = IndexError | ValueError | KeyError | ZeroDivisionError | AttributeError
  | RuntimeError

text \<open>\<^verbatim>\<open>str.isspace\<close> on the code points below 256.\<close>

definition is_space :: "char \<Rightarrow> bool" where
  "is_space c = (of_char c \<in> {9, 10, 11, 12, 13, 28, 29, 30, 31, 32, 133, 160 :: nat})"

text \<open>
  \<^verbatim>\<open>line.split()\<close>: the maximal runs of non-whitespace characters, in order. The
  first argument of \<open>split_from\<close> is the run read so far.
\<close>

fun split_from :: "string \<Rightarrow> string \<Rightarrow> string list" where
  "split_from cur [] = (if cur = [] then [] else [cur])"
| "split_from cur (c # cs) =
     (if is_space c then (if cur = [] then split_from [] cs else cur # split_from [] cs)
      else split_from (cur @ [c]) cs)"

definition str_split :: "string \<Rightarrow> string list" where
  "str_split l = split_from [] l"

text \<open>
  \<^verbatim>\<open>line.lower()\<close> on the code points below 256: the ASCII capitals, and the
  capitals from 192 to 222 except the multiplication sign 215.
\<close>

definition char_lower :: "char \<Rightarrow> char" where
  "char_lower c =
     (case map_of (zip ''ABCDEFGHIJKLMNOPQRSTUVWXYZ'' ''abcdefghijklmnopqrstuvwxyz'') c of
        Some d \<Rightarrow> d
      | None \<Rightarrow>
          if 192 \<le> (of_char c :: nat) \<and> (of_char c :: nat) \<le> 222 \<and> (of_char c :: nat) \<noteq> 215
          then char_of ((of_char c :: nat) + 32)
          else c)"

definition str_lower :: "string \<Rightarrow> string" where
  "str_lower l = map char_lower l"

text \<open>
  Iterating over a file opened in text mode: the file's content is cut after each line
  terminator (\<^verbatim>\<open>\n\<close>, \<^verbatim>\<open>\r\n\<close> or \<^verbatim>\<open>\r\<close>, universal newlines); a last line
  without terminator is a line too. The lines are given without their terminator, which is
  whitespace and so invisible to \<^verbatim>\<open>split()\<close>.
\<close>

fun lines_from :: "string \<Rightarrow> string \<Rightarrow> string list" where
  "lines_from cur [] = (if cur = [] then [] else [cur])"
| "lines_from cur (c # cs) =
     (if c = CHR 0x0A then cur # lines_from [] cs
      else if c = CHR 0x0D then
        (case cs of
           d # ds \<Rightarrow> if d = CHR 0x0A then cur # lines_from [] ds else cur # lines_from [] cs
         | [] \<Rightarrow> cur # lines_from [] cs)
      else lines_from (cur @ [c]) cs)"

definition file_lines :: "string \<Rightarrow> string list" where
  "file_lines content = lines_from [] content"

text \<open>
  \<^verbatim>\<open>int(s)\<close> on a token: an optional sign, then decimal digits, where single
  underscores may separate digits; anything else raises \<^verbatim>\<open>ValueError\<close>
  (\<open>None\<close> here). Leading zeros are accepted. The limit that recent interpreters put
  on the number of digits of a conversion (4300 by default) is not modelled.
\<close>

definition is_digit :: "char \<Rightarrow> bool" where
  "is_digit c = (c \<in> set ''0123456789'')"

definition digit_val :: "char \<Rightarrow> nat" where
  "digit_val c = length (takeWhile (\<lambda>d. d \<noteq> c) ''0123456789'')"

fun digits_from :: "nat \<Rightarrow> string \<Rightarrow> nat option" where
  "digits_from acc [] = Some acc"
| "digits_from acc [c] = (if is_digit c then Some (10 * acc + digit_val c) else None)"
| "digits_from acc (c # d # ds) =
     (if is_digit c then digits_from (10 * acc + digit_val c) (d # ds)
      else if c = CHR ''_'' \<and> is_digit d then digits_from (10 * acc + digit_val d) ds
      else None)"

definition parse_nat :: "string \<Rightarrow> nat option" where
  "parse_nat s =
     (case s of
        [] \<Rightarrow> None
      | c # cs \<Rightarrow> if is_digit c then digits_from (digit_val c) cs else None)"

definition parse_int :: "string \<Rightarrow> int option" where
  "parse_int s =
     (case s of
        [] \<Rightarrow> None
      | c # cs \<Rightarrow>
          if c = CHR ''+'' then map_option int (parse_nat cs)
          else if c = CHR ''-'' then map_option (\<lambda>n. - int n) (parse_nat cs)
          else map_option int (parse_nat s))"

text \<open>\<^verbatim>\<open>str(n)\<close>, as the f-string of \<open>save_ns_table\<close> formats an integer.\<close>

definition digit_char :: "nat \<Rightarrow> char" where
  "digit_char d = ''0123456789'' ! d"

function str_nat :: "nat \<Rightarrow> string" where
  "str_nat n =
     (if n < 10 then [digit_char n] else str_nat (n div 10) @ [digit_char (n mod 10)])"
  by pat_completeness auto
termination
  by (relation "measure (\<lambda>n. n)") auto

declare str_nat.simps [simp del]

definition str_int :: "int \<Rightarrow> string" where
  "str_int n = (if n < 0 then CHR ''-'' # str_nat (nat (- n)) else str_nat (nat n))"

section \<open>The sampling table on disk\<close>

type_synonym ns_entry = "string \<times> int \<times> int"

text \<open>
  \<open>load_ns_table\<close>: every line is split; the first three fields are used, the second and
  third through \<^verbatim>\<open>int\<close>. The tuple is built from left to right, so \<^verbatim>\<open>int(t[1])\<close>
  is tried before \<^verbatim>\<open>t[2]\<close> is read; an index past the end of the list raises
  \<^verbatim>\<open>IndexError\<close>. The exception leaves the function, so no table is returned.
\<close>

definition load_line :: "string \<Rightarrow> error + ns_entry" where
  "load_line l =
     (case str_split l of
        [] \<Rightarrow> Inl IndexError
      | [w] \<Rightarrow> Inl IndexError
      | w # f # rest \<Rightarrow>
          (case parse_int f of
             None \<Rightarrow> Inl ValueError
           | Some fr \<Rightarrow>
               (case rest of
                  [] \<Rightarrow> Inl IndexError
                | n # _ \<Rightarrow>
                    (case parse_int n of
                       None \<Rightarrow> Inl ValueError
                     | Some ns \<Rightarrow> Inr (w, fr, ns)))))"

fun load_lines :: "string list \<Rightarrow> ns_entry list \<Rightarrow> error + ns_entry list" where
  "load_lines [] out = Inr out"
| "load_lines (l # ls) out =
     (case load_line l of
        Inl e \<Rightarrow> Inl e
      | Inr t \<Rightarrow> load_lines ls (out @ [t]))"

definition load_ns_table :: "string \<Rightarrow> error + ns_entry list" where
  "load_ns_table content = load_lines (file_lines content) []"

text \<open>\<open>save_ns_table\<close>: one \<^verbatim>\<open>print\<close> per entry; the result is the file's content.\<close>

definition save_line :: "ns_entry \<Rightarrow> string" where
  "save_line e = (case e of (w, fr, ns) \<Rightarrow> w @ '' '' @ str_int fr @ '' '' @ str_int ns)"

definition save_ns_table :: "ns_entry list \<Rightarrow> string" where
  "save_ns_table table = concat (map (\<lambda>e. save_line e @ [CHR 0x0A]) table)"

text \<open>
  The checks on one line that decide whether \<open>load_line\<close> raises, and the entry it
  returns when it does not.
\<close>

definition fields_ok :: "string \<Rightarrow> bool" where
  "fields_ok l =
     (let t = str_split l
      in 3 \<le> length t \<and> parse_int (t ! 1) \<noteq> None \<and> parse_int (t ! 2) \<noteq> None)"

definition entry_of :: "string \<Rightarrow> ns_entry" where
  "entry_of l =
     (let t = str_split l in (t ! 0, the (parse_int (t ! 1)), the (parse_int (t ! 2))))"

definition word_ok :: "string \<Rightarrow> bool" where
  "word_ok w = (w \<noteq> [] \<and> (\<forall>c\<in>set w. \<not> is_space c))"

section \<open>Building the vocabulary and the sampling table\<close>

text \<open>
  The entries of the \<^verbatim>\<open>params\<close> dictionary that the modelled functions read. The
  corpus is passed as the content of the file that \<^verbatim>\<open>params['corpus']\<close> names.
\<close>

record params =
  p_voc_size :: int
  p_ns_table_size :: int
  p_unknown_str :: string
  p_lowercase :: bool
  p_ns_exp :: real
  p_batch_size :: nat
  p_context_width :: int
  p_prune_threshold :: real

text \<open>
  A Python \<^verbatim>\<open>dict\<close> (and \<^verbatim>\<open>Counter\<close>) is an association list in insertion order
  with distinct keys: \<open>map_of\<close> reads it, \<open>AList.update\<close> stores a value, in place
  for a key that is present and at the end for a new one.
  \<^verbatim>\<open>freqs.update(tokens)\<close> adds one to the count of each token in turn.
\<close>

definition counter_add :: "string \<Rightarrow> (string \<times> nat) list \<Rightarrow> (string \<times> nat) list" where
  "counter_add w freqs =
     AList.update w (case map_of freqs w of None \<Rightarrow> 1 | Some c \<Rightarrow> c + 1) freqs"

definition counter_update :: "string list \<Rightarrow> (string \<times> nat) list \<Rightarrow> (string \<times> nat) list" where
  "counter_update tokens freqs = fold counter_add tokens freqs"

definition tokens_of :: "bool \<Rightarrow> string \<Rightarrow> string list" where
  "tokens_of lc line = str_split (if lc then str_lower line else line)"

definition count_corpus :: "bool \<Rightarrow> string \<Rightarrow> (string \<times> nat) list" where
  "count_corpus lc content =
     fold (\<lambda>line freqs. counter_update (tokens_of lc line) freqs) (file_lines content) []"

text \<open>
  \<^verbatim>\<open>sorted(items, key=lambda p: (p[1], p[0]), reverse=True)\<close>: a stable sort in
  descending key order, which is the reverse of the stable ascending sort of the reversed
  list.
\<close>

definition sorted_desc :: "(string \<times> nat) list \<Rightarrow> (string \<times> nat) list" where
  "sorted_desc items = rev (sort_key (\<lambda>p. (snd p, fst p)) (rev items))"

text \<open>The slices \<^verbatim>\<open>xs[k:]\<close> and \<^verbatim>\<open>xs[:k]\<close>; a negative \<open>k\<close> counts from the end.\<close>

definition slice_from :: "int \<Rightarrow> 'a list \<Rightarrow> 'a list" where
  "slice_from k xs = (if 0 \<le> k then drop (nat k) xs else drop (length xs - nat (- k)) xs)"

definition slice_to :: "int \<Rightarrow> 'a list \<Rightarrow> 'a list" where
  "slice_to k xs = (if 0 \<le> k then take (nat k) xs else take (length xs - nat (- k)) xs)"

text \<open>Lines 53 to 62 of \<open>make_ns_table\<close>: the list \<^verbatim>\<open>freqs_sorted\<close> with the dummy.\<close>

definition freqs_sorted :: "params \<Rightarrow> string \<Rightarrow> (string \<times> nat) list" where
  "freqs_sorted p content =
     (let fs = sorted_desc (count_corpus (p_lowercase p) content);
          sum_freq_pruned =
            (if int (length fs) > p_voc_size p - 1
             then sum_list (map snd (slice_from (p_voc_size p - 1) fs))
             else 1)
      in (p_unknown_str p, sum_freq_pruned) # slice_to (p_voc_size p - 1) fs)"

text \<open>
  \<^verbatim>\<open>round\<close> of a float: to the nearest integer, a tie to the even one.
\<close>

definition py_round :: "real \<Rightarrow> int" where
  "py_round x =
     (let f = \<lfloor>x\<rfloor>; d = x - of_int f
      in if d < 1 / 2 then f else if 1 / 2 < d then f + 1 else if even f then f else f + 1)"

text \<open>
  \<^verbatim>\<open>freq ** ns_exp\<close> on a frequency: 0 to a negative power raises
  \<^verbatim>\<open>ZeroDivisionError\<close>, 0 to the power 0 is 1.
\<close>

definition py_pow :: "nat \<Rightarrow> real \<Rightarrow> error + real" where
  "py_pow freq e =
     (if freq = 0
      then (if e < 0 then Inl ZeroDivisionError else if e = 0 then Inr 1 else Inr 0)
      else Inr (real freq powr e))"

text \<open>
  Lines 67 to 72: \<^verbatim>\<open>ns_table\<close> is a dictionary keyed by the word,
  \<^verbatim>\<open>sum_freq\<close> accumulates over the list.
\<close>

fun ns_freqs ::
  "real \<Rightarrow> (string \<times> nat) list \<Rightarrow> (string \<times> real) list \<Rightarrow> real
     \<Rightarrow> error + (string \<times> real) list \<times> real"
where
  "ns_freqs e [] ns_table sum_freq = Inr (ns_table, sum_freq)"
| "ns_freqs e ((w, freq) # rest) ns_table sum_freq =
     (case py_pow freq e of
        Inl err \<Rightarrow> Inl err
      | Inr ns_freq \<Rightarrow> ns_freqs e rest (AList.update w ns_freq ns_table) (sum_freq + ns_freq))"

text \<open>
  Lines 80 and 81: the division by \<^verbatim>\<open>sum_freq\<close> raises when it is 0. Every word of
  the list is a key of \<^verbatim>\<open>ns_table\<close>, so the lookup \<^verbatim>\<open>ns_table[w]\<close> does not
  fail.
\<close>

definition make_ns_table :: "params \<Rightarrow> string \<Rightarrow> error + ns_entry list" where
  "make_ns_table p content =
     (let fs = freqs_sorted p content
      in case ns_freqs (p_ns_exp p) fs [] 0 of
           Inl err \<Rightarrow> Inl err
         | Inr (ns_table, sum_freq) \<Rightarrow>
             if sum_freq = 0 then Inl ZeroDivisionError
             else (let scaler = real_of_int (p_ns_table_size p) / sum_freq
                   in Inr (map (\<lambda>(w, freq).
                                  (w, int freq, py_round (the (map_of ns_table w) * scaler)))
                               fs)))"

text \<open>
  The tokens of the whole corpus in reading order; the number of distinct words is the
  number of distinct elements of this list.
\<close>

definition corpus_tokens :: "bool \<Rightarrow> string \<Rightarrow> string list" where
  "corpus_tokens lc content = concat (map (tokens_of lc) (file_lines content))"

section \<open>The context generator\<close>

text \<open>
  A float that may be \<^verbatim>\<open>nan\<close>: \<^verbatim>\<open>np.sqrt\<close> of a negative number is \<^verbatim>\<open>nan\<close>,
  and every comparison with \<^verbatim>\<open>nan\<close> is false.
\<close>

datatype pyfloat = Fin real | NaN

fun float_ge :: "real \<Rightarrow> pyfloat \<Rightarrow> bool" where
  "float_ge p (Fin q) = (q \<le> p)"
| "float_ge p NaN = False"

record generator =
  voc :: "(string \<times> nat) list"
  batch_size :: nat
  ctx_width :: int
  lowercase :: bool
  prune_probs :: "(string \<times> pyfloat) list"

text \<open>
  \<open>__init__\<close>: \<^verbatim>\<open>voc\<close> maps each word to its (last) position in the table; the
  pruning value of a word is \<^verbatim>\<open>1 - np.sqrt(t * total_freq / f)\<close>, and a frequency
  0 raises \<^verbatim>\<open>ZeroDivisionError\<close>.
\<close>

definition voc_step :: "nat \<times> ns_entry \<Rightarrow> (string \<times> nat) list \<Rightarrow> (string \<times> nat) list" where
  "voc_step ie d = (case ie of (i, (w, _, _)) \<Rightarrow> AList.update w i d)"

definition make_voc :: "ns_entry list \<Rightarrow> (string \<times> nat) list" where
  "make_voc ns_table = fold voc_step (enumerate 0 ns_table) []"

definition prune_prob :: "real \<Rightarrow> int \<Rightarrow> int \<Rightarrow> error + pyfloat" where
  "prune_prob t total_freq f =
     (if f = 0 then Inl ZeroDivisionError
      else let x = t * real_of_int total_freq / real_of_int f
           in if x < 0 then Inr NaN else Inr (Fin (1 - sqrt x)))"

fun make_prune_probs ::
  "real \<Rightarrow> int \<Rightarrow> ns_entry list \<Rightarrow> (string \<times> pyfloat) list \<Rightarrow> error + (string \<times> pyfloat) list"
where
  "make_prune_probs t total_freq [] probs = Inr probs"
| "make_prune_probs t total_freq ((w, f, _) # rest) probs =
     (case prune_prob t total_freq f of
        Inl e \<Rightarrow> Inl e
      | Inr q \<Rightarrow> make_prune_probs t total_freq rest (AList.update w q probs))"

definition generator_init :: "ns_entry list \<Rightarrow> params \<Rightarrow> error + generator" where
  "generator_init ns_table p =
     (let total_freq = sum_list (map (\<lambda>(_, f, _). f) ns_table)
      in case make_prune_probs (p_prune_threshold p) total_freq ns_table [] of
           Inl e \<Rightarrow> Inl e
         | Inr probs \<Rightarrow>
             Inr \<lparr>voc = make_voc ns_table, batch_size = p_batch_size p,
                  ctx_width = p_context_width p, lowercase = p_lowercase p,
                  prune_probs = probs\<rparr>)"

text \<open>The first steps of \<open>main\<close> when no table file exists: table, then generator.\<close>

definition build_generator :: "params \<Rightarrow> string \<Rightarrow> error + generator" where
  "build_generator p content =
     (case make_ns_table p content of
        Inl e \<Rightarrow> Inl e
      | Inr ns_table \<Rightarrow> generator_init ns_table p)"

text \<open>
  Randomness is an input. \<open>noise n k\<close> is the value that \<^verbatim>\<open>np.random.random\<close> gives
  for token \<open>k\<close> of line \<open>n\<close>; \<open>rng d i\<close> is the entropy behind element \<open>i\<close> of
  the \<open>d\<close>-th array of widths, which \<^verbatim>\<open>np.random.randint(1, ctx_width + 1, size)\<close>
  places in \<open>{1, \<dots>, ctx_width}\<close>.
\<close>

definition prune :: "generator \<Rightarrow> (nat \<Rightarrow> real) \<Rightarrow> string list \<Rightarrow> string list" where
  "prune g ps tokens =
     map fst (filter (\<lambda>(w, p). float_ge p (case map_of (prune_probs g) w of
                                              None \<Rightarrow> Fin 0 | Some q \<Rightarrow> q))
                     (zip tokens (map ps [0..<length tokens])))"

definition randint_widths :: "generator \<Rightarrow> (nat \<Rightarrow> nat \<Rightarrow> nat) \<Rightarrow> nat \<Rightarrow> int list" where
  "randint_widths g rng d =
     map (\<lambda>i. 1 + int (rng d i mod nat (ctx_width g))) [0..<batch_size g]"

definition encode :: "generator \<Rightarrow> (nat \<Rightarrow> real) \<Rightarrow> string \<Rightarrow> nat list" where
  "encode g ps line =
     map (\<lambda>t. case map_of (voc g) t of None \<Rightarrow> 0 | Some i \<Rightarrow> i)
         (prune g ps (tokens_of (lowercase g) line))"

text \<open>
  The local variables of \<open>batches\<close>. \<open>yielded\<close> collects the batches handed to the
  consumer so far, \<open>draws\<close> counts the calls of \<^verbatim>\<open>randint\<close>.
\<close>

record bstate =
  widths :: "int list"
  width_ix :: nat
  out_t :: "nat list"
  out_c :: "nat list"
  yielded :: "(nat list \<times> nat list) list"
  draws :: nat
  word_count :: nat

text \<open>The loop over \<open>j\<close> (lines 160 to 174), for target position \<open>i\<close>.\<close>

fun ctx_loop ::
  "generator \<Rightarrow> (nat \<Rightarrow> nat \<Rightarrow> nat) \<Rightarrow> nat list \<Rightarrow> nat \<Rightarrow> int list \<Rightarrow> bstate \<Rightarrow> bstate"
where
  "ctx_loop g rng encoded i [] s = s"
| "ctx_loop g rng encoded i (j # js) s =
     (if j \<noteq> int i then
        (let s1 = s\<lparr>out_t := out_t s @ [encoded ! i], out_c := out_c s @ [encoded ! nat j]\<rparr>
         in if length (out_t s1) = batch_size g
            then ctx_loop g rng encoded i js
                   (s1\<lparr>yielded := yielded s1 @ [(out_t s1, out_c s1)],
                       widths := randint_widths g rng (draws s1),
                       draws := Suc (draws s1),
                       width_ix := 0, out_t := [], out_c := []\<rparr>)
            else ctx_loop g rng encoded i js s1)
      else ctx_loop g rng encoded i js s)"

text \<open>
  The loop over the positions of one encoded line (lines 149 to 174). Reading
  \<^verbatim>\<open>widths[width_ix]\<close> past the end of the array raises \<^verbatim>\<open>IndexError\<close>.
\<close>

fun pos_loop ::
  "generator \<Rightarrow> (nat \<Rightarrow> nat \<Rightarrow> nat) \<Rightarrow> nat list \<Rightarrow> nat list \<Rightarrow> bstate \<Rightarrow> bstate \<times> error option"
where
  "pos_loop g rng encoded [] s = (s, None)"
| "pos_loop g rng encoded (i # is) s =
     (if width_ix s < length (widths s) then
        (let w = widths s ! width_ix s;
             s1 = s\<lparr>width_ix := Suc (width_ix s)\<rparr>;
             start = max 0 (int i - w);
             end' = min (int i + w + 1) (int (length encoded))
         in pos_loop g rng encoded is (ctx_loop g rng encoded i [start..end' - 1] s1))
      else (s, Some IndexError))"

text \<open>The loop over the lines of the corpus (lines 138 to 174); \<open>n\<close> numbers the line.\<close>

fun line_loop ::
  "generator \<Rightarrow> (nat \<Rightarrow> nat \<Rightarrow> nat) \<Rightarrow> (nat \<Rightarrow> nat \<Rightarrow> real) \<Rightarrow> nat \<Rightarrow> string list \<Rightarrow> bstate
     \<Rightarrow> bstate \<times> error option"
where
  "line_loop g rng noise n [] s = (s, None)"
| "line_loop g rng noise n (line # rest) s =
     (let tokens = tokens_of (lowercase g) line;
          s1 = s\<lparr>word_count := word_count s + length tokens\<rparr>;
          encoded = encode g (noise n) line
      in case pos_loop g rng encoded [0..<length encoded] s1 of
           (s2, None) \<Rightarrow> line_loop g rng noise (Suc n) rest s2
         | (s2, Some e) \<Rightarrow> (s2, Some e))"

text \<open>
  \<open>batches\<close>: the batches the consumer receives, in order, and the exception that ends
  the generator, if one does. \<^verbatim>\<open>randint\<close> raises \<^verbatim>\<open>ValueError\<close> when
  \<open>ctx_width < 1\<close>.
\<close>

definition init_state :: "generator \<Rightarrow> (nat \<Rightarrow> nat \<Rightarrow> nat) \<Rightarrow> bstate" where
  "init_state g rng =
     \<lparr>widths = randint_widths g rng 0, width_ix = 0, out_t = [], out_c = [], yielded = [],
      draws = 1, word_count = 0\<rparr>"

definition batches ::
  "generator \<Rightarrow> (nat \<Rightarrow> nat \<Rightarrow> nat) \<Rightarrow> (nat \<Rightarrow> nat \<Rightarrow> real) \<Rightarrow> string
     \<Rightarrow> (nat list \<times> nat list) list \<times> error option"
where
  "batches g rng noise content =
     (if ctx_width g < 1 then ([], Some ValueError)
      else case line_loop g rng noise 0 (file_lines content) (init_state g rng) of
             (s, None) \<Rightarrow>
               (if 0 < length (out_t s) then yielded s @ [(out_t s, out_c s)] else yielded s,
                None)
           | (s, Some e) \<Rightarrow> (yielded s, Some e))"

section \<open>Notions used to state the properties\<close>

text \<open>The count that a \<^verbatim>\<open>Counter\<close> holds for a word, 0 for an absent one.\<close>

definition cnt :: "(string \<times> nat) list \<Rightarrow> string \<Rightarrow> nat" where
  "cnt al w = (case map_of al w of None \<Rightarrow> 0 | Some c \<Rightarrow> c)"

text \<open>
  The order of \<^verbatim>\<open>freqs_sorted\<close>: \<open>a\<close> comes before \<open>b\<close> when its frequency is
  higher, or the frequencies are equal and its word is the greater string.
\<close>

definition above :: "string \<times> nat \<Rightarrow> string \<times> nat \<Rightarrow> bool" where
  "above a b = (snd b < snd a \<or> (snd b = snd a \<and> fst b < fst a))"

definition ranks_above :: "ns_entry \<Rightarrow> ns_entry \<Rightarrow> bool" where
  "ranks_above a b =
     (fst (snd b) < fst (snd a) \<or> (fst (snd b) = fst (snd a) \<and> fst b < fst a))"

text \<open>The configuration of \<open>main\<close>, as far as the modelled functions read it.\<close>

definition main_params :: params where
  "main_params =
     \<lparr>p_voc_size = 100000, p_ns_table_size = 16777216, p_unknown_str = ''<UNKNOWN>'',
      p_lowercase = True, p_ns_exp = 3 / 4, p_batch_size = 1048576, p_context_width = 5,
      p_prune_threshold = 1 / 1000\<rparr>"

section \<open>The generator with the origin of every pair recorded\<close>

text \<open>
  The same loops as \<open>batches\<close>, where each emitted pair is recorded as an event: the
  number \<open>n\<close> of the line, the encoded line, the target position \<open>i\<close>, the context
  position \<open>j\<close> and the width \<open>w\<close> read for position \<open>i\<close>. The pair of an event is
  \<^verbatim>\<open>(encoded[i], encoded[j])\<close>. Control flow reads the same variables as in
  \<open>batches\<close>; \<open>erase_state\<close> forgets the origins.
\<close>

type_synonym event = "nat \<times> nat list \<times> nat \<times> nat \<times> int"

record tstate =
  t_widths :: "int list"
  t_width_ix :: nat
  t_out :: "event list"
  t_yielded :: "event list list"
  t_draws :: nat
  t_word_count :: nat

definition ev_pair :: "event \<Rightarrow> nat \<times> nat" where
  "ev_pair e = (case e of (n, encoded, i, j, w) \<Rightarrow> (encoded ! i, encoded ! j))"

definition erase_batch :: "event list \<Rightarrow> nat list \<times> nat list" where
  "erase_batch evs = (map (fst \<circ> ev_pair) evs, map (snd \<circ> ev_pair) evs)"

definition erase_state :: "tstate \<Rightarrow> bstate" where
  "erase_state t =
     \<lparr>widths = t_widths t, width_ix = t_width_ix t,
      out_t = fst (erase_batch (t_out t)), out_c = snd (erase_batch (t_out t)),
      yielded = map erase_batch (t_yielded t), draws = t_draws t,
      word_count = t_word_count t\<rparr>"

fun ctx_loop_tr ::
  "generator \<Rightarrow> (nat \<Rightarrow> nat \<Rightarrow> nat) \<Rightarrow> nat \<Rightarrow> nat list \<Rightarrow> int \<Rightarrow> nat \<Rightarrow> int list \<Rightarrow> tstate
     \<Rightarrow> tstate"
where
  "ctx_loop_tr g rng n encoded w i [] s = s"
| "ctx_loop_tr g rng n encoded w i (j # js) s =
     (if j \<noteq> int i then
        (let s1 = s\<lparr>t_out := t_out s @ [(n, encoded, i, nat j, w)]\<rparr>
         in if length (t_out s1) = batch_size g
            then ctx_loop_tr g rng n encoded w i js
                   (s1\<lparr>t_yielded := t_yielded s1 @ [t_out s1],
                       t_widths := randint_widths g rng (t_draws s1),
                       t_draws := Suc (t_draws s1),
                       t_width_ix := 0, t_out := []\<rparr>)
            else ctx_loop_tr g rng n encoded w i js s1)
      else ctx_loop_tr g rng n encoded w i js s)"

fun pos_loop_tr ::
  "generator \<Rightarrow> (nat \<Rightarrow> nat \<Rightarrow> nat) \<Rightarrow> nat \<Rightarrow> nat list \<Rightarrow> nat list \<Rightarrow> tstate
     \<Rightarrow> tstate \<times> error option"
where
  "pos_loop_tr g rng n encoded [] s = (s, None)"
| "pos_loop_tr g rng n encoded (i # is) s =
     (if t_width_ix s < length (t_widths s) then
        (let w = t_widths s ! t_width_ix s;
             s1 = s\<lparr>t_width_ix := Suc (t_width_ix s)\<rparr>;
             start = max 0 (int i - w);
             end' = min (int i + w + 1) (int (length encoded))
         in pos_loop_tr g rng n encoded is
              (ctx_loop_tr g rng n encoded w i [start..end' - 1] s1))
      else (s, Some IndexError))"

fun line_loop_tr ::
  "generator \<Rightarrow> (nat \<Rightarrow> nat \<Rightarrow> nat) \<Rightarrow> (nat \<Rightarrow> nat \<Rightarrow> real) \<Rightarrow> nat \<Rightarrow> string list \<Rightarrow> tstate
     \<Rightarrow> tstate \<times> error option"
where
  "line_loop_tr g rng noise n [] s = (s, None)"
| "line_loop_tr g rng noise n (line # rest) s =
     (let tokens = tokens_of (lowercase g) line;
          s1 = s\<lparr>t_word_count := t_word_count s + length tokens\<rparr>;
          encoded = encode g (noise n) line
      in case pos_loop_tr g rng n encoded [0..<length encoded] s1 of
           (s2, None) \<Rightarrow> line_loop_tr g rng noise (Suc n) rest s2
         | (s2, Some e) \<Rightarrow> (s2, Some e))"

definition init_tstate :: "generator \<Rightarrow> (nat \<Rightarrow> nat \<Rightarrow> nat) \<Rightarrow> tstate" where
  "init_tstate g rng =
     \<lparr>t_widths = randint_widths g rng 0, t_width_ix = 0, t_out = [], t_yielded = [],
      t_draws = 1, t_word_count = 0\<rparr>"

definition batches_tr ::
  "generator \<Rightarrow> (nat \<Rightarrow> nat \<Rightarrow> nat) \<Rightarrow> (nat \<Rightarrow> nat \<Rightarrow> real) \<Rightarrow> string
     \<Rightarrow> event list list \<times> error option"
where
  "batches_tr g rng noise content =
     (if ctx_width g < 1 then ([], Some ValueError)
      else case line_loop_tr g rng noise 0 (file_lines content) (init_tstate g rng) of
             (s, None) \<Rightarrow>
               (if 0 < length (t_out s) then t_yielded s @ [t_out s] else t_yielded s, None)
           | (s, Some e) \<Rightarrow> (t_yielded s, Some e))"

text \<open>
  What the claim says of one event: it belongs to line \<open>n\<close> of the corpus as encoded
  after pruning, both positions are positions of that line, they differ, the context
  position lies in the window of width \<open>w\<close> around the target position, and \<open>w\<close> is
  one of the widths \<open>1, \<dots>, ctx_width\<close>.
\<close>

definition ev_ok :: "generator \<Rightarrow> (nat \<Rightarrow> nat \<Rightarrow> real) \<Rightarrow> string list \<Rightarrow> event \<Rightarrow> bool" where
  "ev_ok g noise lines e =
     (case e of (n, encoded, i, j, w) \<Rightarrow>
        n < length lines \<and> encoded = encode g (noise n) (lines ! n)
        \<and> i < length encoded \<and> j < length encoded \<and> j \<noteq> i
        \<and> max 0 (int i - w) \<le> int j \<and> int j \<le> min (int (length encoded) - 1) (int i + w)
        \<and> 1 \<le> w \<and> w \<le> ctx_width g)"

text \<open>Example inputs: small variants of the configuration of \<open>main\<close>.\<close>

definition small_params :: params where
  "small_params = main_params\<lparr>p_batch_size := 1, p_context_width := 1, p_prune_threshold := 1\<rparr>"

text \<open>The invariant of the loops: every recorded event is as \<open>ev_ok\<close> says.\<close>

definition tinv :: "generator \<Rightarrow> (nat \<Rightarrow> nat \<Rightarrow> real) \<Rightarrow> string list \<Rightarrow> tstate \<Rightarrow> bool" where
  "tinv g noise lines t =
     ((\<forall>e\<in>set (t_out t). ev_ok g noise lines e)
      \<and> (\<forall>b\<in>set (t_yielded t). \<forall>e\<in>set b. ev_ok g noise lines e)
      \<and> (\<forall>w\<in>set (t_widths t). 1 \<le> w \<and> w \<le> ctx_width g))"

text \<open>
  The generator that \<open>generator_init\<close> builds from the table of the two-line corpus
  \<^verbatim>\<open>a\<close>, \<^verbatim>\<open>b\<close> under \<open>small_params\<close>.
\<close>

definition example_table :: "ns_entry list" where
  "example_table = [(''<UNKNOWN>'', 1, 5592405), (''b'', 1, 5592405), (''a'', 1, 5592405)]"

definition example_generator :: generator where
  "example_generator =
     \<lparr>voc = [(''<UNKNOWN>'', 0), (''b'', 1), (''a'', 2)], batch_size = 1, ctx_width = 1,
      lowercase = True,
      prune_probs = [(''<UNKNOWN>'', Fin (1 - sqrt 3)), (''b'', Fin (1 - sqrt 3)),
                     (''a'', Fin (1 - sqrt 3))]\<rparr>"

section \<open>The embedding model's neighbour query\<close>

text \<open>
  \<open>SGNSModel\<close> keeps the vocabulary \<^verbatim>\<open>voc\<close>, its inverse \<^verbatim>\<open>ivoc\<close> and the
  target embeddings \<^verbatim>\<open>w\<close>, one row per entry of \<^verbatim>\<open>voc\<close>; \<open>rows i\<close> is the
  content of row \<open>i\<close> at the time of the query. The two functions of the tensor library
  that \<open>nearest_neighbors\<close> calls are parameters of the model: \<open>sim\<close> is
  \<^verbatim>\<open>nn.CosineSimilarity\<close> on two rows, and \<open>topk k row\<close> is \<^verbatim>\<open>row.topk(k)\<close>, the
  list of the \<open>k\<close> selected values with their indices.
\<close>

record sgns_model =
  m_voc :: "(string \<times> nat) list"
  m_ivoc :: "(nat \<times> string) list"
  m_w :: "real list list"

definition ivoc_step :: "string \<times> nat \<Rightarrow> (nat \<times> string) list \<Rightarrow> (nat \<times> string) list" where
  "ivoc_step wi d = (case wi of (w, i) \<Rightarrow> AList.update i w d)"

definition make_ivoc :: "(string \<times> nat) list \<Rightarrow> (nat \<times> string) list" where
  "make_ivoc v = fold ivoc_step v []"

definition model_init :: "(string \<times> nat) list \<Rightarrow> (nat \<Rightarrow> real list) \<Rightarrow> sgns_model" where
  "model_init v rows =
     \<lparr>m_voc = v, m_ivoc = make_ivoc v, m_w = map rows [0..<length v]\<rparr>"

text \<open>A comprehension whose element may raise: the first exception ends it.\<close>

fun try_map :: "('a \<Rightarrow> error + 'b) \<Rightarrow> 'a list \<Rightarrow> error + 'b list" where
  "try_map f [] = Inr []"
| "try_map f (x # xs) =
     (case f x of
        Inl e \<Rightarrow> Inl e
      | Inr y \<Rightarrow> (case try_map f xs of Inl e \<Rightarrow> Inl e | Inr ys \<Rightarrow> Inr (y # ys)))"

definition lookup_word :: "(string \<times> nat) list \<Rightarrow> string \<Rightarrow> error + nat" where
  "lookup_word v w = (case map_of v w of None \<Rightarrow> Inl KeyError | Some i \<Rightarrow> Inr i)"

definition embed :: "real list list \<Rightarrow> nat \<Rightarrow> error + real list" where
  "embed weight ix = (if ix < length weight then Inr (weight ! ix) else Inl IndexError)"

definition name_pair :: "(nat \<times> string) list \<Rightarrow> real \<times> nat \<Rightarrow> error + string \<times> real" where
  "name_pair iv p =
     (case p of (val, ix) \<Rightarrow>
        (case map_of iv ix of None \<Rightarrow> Inl KeyError | Some w \<Rightarrow> Inr (w, val)))"

text \<open>
  \<open>nearest_neighbors\<close>. A falsy \<^verbatim>\<open>n_neighbors\<close> makes the method read
  \<^verbatim>\<open>self.n_testwords_neighbors\<close>, an attribute that only the trainer has:
  \<^verbatim>\<open>AttributeError\<close>. \<^verbatim>\<open>topk\<close> raises \<^verbatim>\<open>RuntimeError\<close> when asked for more
  elements than a row has. The slices \<^verbatim>\<open>[:, 1:]\<close> drop the first selected element of
  every row. The tensor of an empty list of indices is a tensor of floats, which the
  embedding lookup refuses (\<^verbatim>\<open>RuntimeError\<close>); an index that is no row raises
  \<^verbatim>\<open>IndexError\<close>.
\<close>

definition nearest_neighbors ::
  "(real list \<Rightarrow> real list \<Rightarrow> real) \<Rightarrow> (nat \<Rightarrow> real list \<Rightarrow> (real \<times> nat) list) \<Rightarrow> sgns_model
     \<Rightarrow> string list \<Rightarrow> nat \<Rightarrow> error + (string \<times> real) list list"
where
  "nearest_neighbors sim topk m words n_neighbors =
     (case try_map (lookup_word (m_voc m)) words of
        Inl e \<Rightarrow> Inl e
      | Inr words_ix \<Rightarrow>
          (case (if words_ix = [] then Inl RuntimeError
                 else try_map (embed (m_w m)) words_ix) of
             Inl e \<Rightarrow> Inl e
           | Inr test_emb \<Rightarrow>
               (let scores = map (\<lambda>q. map (sim q) (m_w m)) test_emb
                in if n_neighbors = 0 then Inl AttributeError
                   else if length (m_w m) < n_neighbors + 1 then Inl RuntimeError
                   else (let near_nbr = map (topk (n_neighbors + 1)) scores
                         in try_map (try_map (name_pair (m_ivoc m))) (map tl near_nbr)))))"

text \<open>
  What the library documents of \<open>topk k row\<close> for \<open>k\<close> up to the length of the row:
  \<open>k\<close> elements of the row at distinct indices, in descending order of value, and no
  element left out is greater than one selected. Which of several equal values is selected,
  and in which order, is not specified.
\<close>

definition topk_ok :: "nat \<Rightarrow> real list \<Rightarrow> (real \<times> nat) list \<Rightarrow> bool" where
  "topk_ok k row res =
     (length res = k \<and> distinct (map snd res)
      \<and> (\<forall>e\<in>set res. snd e < length row \<and> fst e = row ! snd e)
      \<and> sorted_wrt (\<lambda>a b. fst b \<le> fst a) res
      \<and> (\<forall>j<length row. j \<notin> snd ` set res \<longrightarrow> (\<forall>e\<in>set res. row ! j \<le> fst e)))"

text \<open>
  The scores of a query word against all rows, and what the claim says of the list returned
  for one query: \<open>k\<close> pairs in descending order of similarity, of pairwise distinct
  words of the vocabulary, each with the similarity of the query's row and the word's row;
  they are the entries ranked second to \<open>(k + 1)\<close>-th, that is, one row \<open>h\<close> outside the
  list scores at least as much as every listed word and every other row outside the list
  scores at most as much as every listed word; and the query is not listed when its score
  with itself is strictly the greatest of its row.
\<close>

definition score_row :: "(real list \<Rightarrow> real list \<Rightarrow> real) \<Rightarrow> sgns_model \<Rightarrow> string \<Rightarrow> real list" where
  "score_row sim m w = map (sim (m_w m ! the (map_of (m_voc m) w))) (m_w m)"

definition nn_ok ::
  "(real list \<Rightarrow> real list \<Rightarrow> real) \<Rightarrow> sgns_model \<Rightarrow> nat \<Rightarrow> string \<Rightarrow> (string \<times> real) list \<Rightarrow> bool"
where
  "nn_ok sim m k w res =
     (length res = k
      \<and> sorted_wrt (\<lambda>a b. snd b \<le> snd a) res
      \<and> distinct (map fst res)
      \<and> (\<forall>e\<in>set res. \<exists>j<length (m_w m).
            map_of (m_voc m) (fst e) = Some j \<and> snd e = score_row sim m w ! j)
      \<and> (\<exists>h<length (m_w m).
            (\<forall>e\<in>set res. map_of (m_voc m) (fst e) \<noteq> Some h \<and> snd e \<le> score_row sim m w ! h)
          \<and> (\<forall>j<length (m_w m). j \<noteq> h \<longrightarrow>
                (\<forall>e\<in>set res. map_of (m_voc m) (fst e) \<noteq> Some j) \<longrightarrow>
                (\<forall>e\<in>set res. score_row sim m w ! j \<le> snd e)))
      \<and> ((\<forall>j<length (m_w m). j \<noteq> the (map_of (m_voc m) w) \<longrightarrow>
              score_row sim m w ! j < score_row sim m w ! the (map_of (m_voc m) w))
           \<longrightarrow> w \<notin> fst ` set res))"

text \<open>
  Instances for examples: the cosine similarity as the library documents it, in exact
  arithmetic; a \<open>topk\<close> that sorts stably (of equal values the one at the lower index
  first) and one that prefers the higher index; a vocabulary of three words with unit
  vectors, and one of two words with the same vector.
\<close>

definition dot :: "real list \<Rightarrow> real list \<Rightarrow> real" where
  "dot x y = sum_list (map2 (*) x y)"

definition cosine_sim :: "real list \<Rightarrow> real list \<Rightarrow> real" where
  "cosine_sim x y = dot x y / max (sqrt (dot x x) * sqrt (dot y y)) (1 / 10 ^ 8)"

definition topk_low :: "nat \<Rightarrow> real list \<Rightarrow> (real \<times> nat) list" where
  "topk_low k row = take k (rev (sort_key fst (rev (zip row [0..<length row]))))"

definition topk_high :: "nat \<Rightarrow> real list \<Rightarrow> (real \<times> nat) list" where
  "topk_high k row = take k (rev (sort_key fst (zip row [0..<length row])))"

definition example_model :: sgns_model where
  "example_model =
     model_init [(''<UNKNOWN>'', 0), (''a'', 1), (''b'', 2)]
       (\<lambda>i. [[1, 0], [0, 1], [0, - 1]] ! i)"

definition twin_model :: sgns_model where
  "twin_model = model_init [(''<UNKNOWN>'', 0), (''a'', 1)] (\<lambda>i. [1, 0])"

section \<open>Loading: which files are accepted\<close>

lemma load_line_cases:
  "load_line l = (if fields_ok l then Inr (entry_of l)
     else if length (str_split l) < 2 then Inl IndexError
     else if parse_int (str_split l ! 1) = None then Inl ValueError
     else if length (str_split l) < 3 then Inl IndexError
     else Inl ValueError)"
  by (auto simp: load_line_def fields_ok_def entry_of_def Let_def
      split: list.splits option.splits)

lemma load_lines_ok:
  "list_all fields_ok ls \<Longrightarrow> load_lines ls out = Inr (out @ map entry_of ls)"
  by (induction ls arbitrary: out) (auto simp: load_line_cases)

lemma load_lines_bad:
  "\<not> list_all fields_ok ls \<Longrightarrow> \<exists>e. load_lines ls out = Inl e"
  by (induction ls arbitrary: out) (auto simp: load_line_cases)

text \<open>
  Claim C9, as the code has it. \<open>load_ns_table\<close> returns a table exactly when every line
  of the file has at least three whitespace-separated fields of which the second and the
  third are accepted by \<^verbatim>\<open>int\<close>; the table then holds one entry per line, from the
  first three fields, and fields after the third are ignored. In every other case it raises
  and returns no table, not even the entries read before the bad line.
\<close>

theorem load_ns_table_accepts:
  "load_ns_table content = Inr table \<longleftrightarrow>
     list_all fields_ok (file_lines content) \<and> table = map entry_of (file_lines content)"
proof (cases "list_all fields_ok (file_lines content)")
  case True
  then show ?thesis
    using load_lines_ok [of "file_lines content" "[]"] by (auto simp: load_ns_table_def)
next
  case False
  then show ?thesis
    using load_lines_bad [of "file_lines content" "[]"] by (auto simp: load_ns_table_def)
qed

theorem load_ns_table_accepts_witness:
  "list_all fields_ok (file_lines (''a 3 7'' @ [CHR 0x0A] @ ''b 1 2''))
     \<and> load_ns_table (''a 3 7'' @ [CHR 0x0A] @ ''b 1 2'') = Inr [(''a'', 3, 7), (''b'', 1, 2)]"
  using load_ns_table_accepts [of "''a 3 7'' @ [CHR 0x0A] @ ''b 1 2''" "[(''a'', 3, 7), (''b'', 1, 2)]"]
  by (simp add: file_lines_def fields_ok_def entry_of_def str_split_def is_space_def
      parse_int_def parse_nat_def is_digit_def digit_val_def)

text \<open>
  The claim as stated fails: a line with four fields is not rejected. Its field count is not
  three, and the load succeeds with the first three fields.
\<close>

theorem load_ns_table_extra_field:
  "length (str_split ''a 1 2 x'') = 4 \<and> load_ns_table ''a 1 2 x'' = Inr [(''a'', 1, 2)]"
  by (simp add: load_ns_table_def file_lines_def load_line_def str_split_def is_space_def
      parse_int_def parse_nat_def is_digit_def digit_val_def)

text \<open>
  A line with two fields, one whose third field is no integer, and one with two fields of
  which the second is no integer, are rejected.
\<close>

lemma load_ns_table_rejects:
  "load_ns_table (''a 1 2'' @ [CHR 0x0A] @ ''b 3'') = Inl IndexError"
  "load_ns_table (''a 1 2'' @ [CHR 0x0A] @ ''b 3 x'') = Inl ValueError"
  "load_ns_table (''a 1 2'' @ [CHR 0x0A] @ ''b x'') = Inl ValueError"
  by (simp_all add: load_ns_table_def file_lines_def load_line_def str_split_def is_space_def
      parse_int_def parse_nat_def is_digit_def digit_val_def)

section \<open>Saving and loading again\<close>

lemma split_from_nospace:
  "\<forall>c\<in>set w. \<not> is_space c \<Longrightarrow> split_from cur (w @ rest) = split_from (cur @ w) rest"
  by (induction w arbitrary: cur) auto

lemma is_space_sp: "is_space (CHR '' '')"
  by (simp add: is_space_def)

lemma str_split_three:
  assumes "w \<noteq> []" "f \<noteq> []" "n \<noteq> []"
    and "\<forall>c\<in>set w. \<not> is_space c" "\<forall>c\<in>set f. \<not> is_space c" "\<forall>c\<in>set n. \<not> is_space c"
  shows "str_split (w @ CHR '' '' # f @ CHR '' '' # n) = [w, f, n]"
proof -
  have "split_from [] (n @ []) = [n]"
    using assms by (simp only: split_from_nospace [OF assms(6)]) simp
  then have n: "split_from [] n = [n]" by simp
  have "split_from [] (f @ CHR '' '' # n) = f # split_from [] n"
    using assms by (simp add: split_from_nospace [OF assms(5)] is_space_sp)
  moreover have "split_from [] (w @ CHR '' '' # f @ CHR '' '' # n) = w # split_from [] (f @ CHR '' '' # n)"
    using assms by (simp add: split_from_nospace [OF assms(4)] is_space_sp)
  ultimately show ?thesis by (simp add: str_split_def n)
qed

lemma below_ten: "d < 10 \<Longrightarrow> d \<in> {0, 1, 2, 3, 4, 5, 6, 7, 8, 9 :: nat}"
  by auto

lemma digit_char_is_digit: "d < 10 \<Longrightarrow> is_digit (digit_char d)"
  by (drule below_ten) (auto simp: digit_char_def is_digit_def)

lemma digit_val_char: "d < 10 \<Longrightarrow> digit_val (digit_char d) = d"
  by (drule below_ten) (auto simp: digit_char_def digit_val_def)

lemma is_digit_not_space: "is_digit c \<Longrightarrow> \<not> is_space c"
  by (auto simp: is_digit_def is_space_def)

lemma str_nat_digits: "\<forall>c\<in>set (str_nat n). is_digit c"
  by (induction n rule: str_nat.induct) (subst str_nat.simps, auto simp: digit_char_is_digit)

lemma str_nat_nonempty: "str_nat n \<noteq> []"
  by (subst str_nat.simps) simp

lemma digits_from_all:
  "\<forall>c\<in>set ds. is_digit c \<Longrightarrow>
     digits_from acc ds = Some (fold (\<lambda>c a. 10 * a + digit_val c) ds acc)"
  by (induction acc ds rule: digits_from.induct) auto

lemma parse_nat_all:
  "ds \<noteq> [] \<Longrightarrow> \<forall>c\<in>set ds. is_digit c \<Longrightarrow>
     parse_nat ds = Some (fold (\<lambda>c a. 10 * a + digit_val c) ds 0)"
  by (cases ds) (auto simp: parse_nat_def digits_from_all)

lemma fold_str_nat: "fold (\<lambda>c a. 10 * a + digit_val c) (str_nat n) 0 = n"
proof (induction n rule: str_nat.induct)
  case (1 n)
  show ?case
  proof (cases "n < 10")
    case True
    then show ?thesis by (subst str_nat.simps) (simp add: digit_val_char)
  next
    case False
    then show ?thesis
      using 1 by (subst str_nat.simps) (simp add: digit_val_char)
  qed
qed

lemma parse_nat_str_nat: "parse_nat (str_nat n) = Some n"
  by (simp add: parse_nat_all str_nat_nonempty str_nat_digits fold_str_nat)

lemma hd_str_nat_digit: "is_digit (hd (str_nat n))"
  using str_nat_digits [of n] str_nat_nonempty [of n] by (cases "str_nat n") auto

lemma parse_int_str_int: "parse_int (str_int n) = Some n"
proof (cases "n < 0")
  case True
  then show ?thesis by (simp add: str_int_def parse_int_def parse_nat_str_nat)
next
  case False
  obtain c cs where s: "str_nat (nat n) = c # cs"
    using str_nat_nonempty [of "nat n"] by (cases "str_nat (nat n)") auto
  have "is_digit c" using hd_str_nat_digit [of "nat n"] s by simp
  then have "c \<noteq> CHR ''+''" "c \<noteq> CHR ''-''" by (auto simp: is_digit_def)
  then show ?thesis
    using False s parse_nat_str_nat [of "nat n"] by (simp add: str_int_def parse_int_def)
qed

lemma str_int_nospace: "\<forall>c\<in>set (str_int n). \<not> is_space c"
  using str_nat_digits is_digit_not_space by (auto simp: str_int_def is_space_def)

lemma str_int_nonempty: "str_int n \<noteq> []"
  by (simp add: str_int_def str_nat_nonempty)

lemma load_save_line:
  "word_ok w \<Longrightarrow> load_line (save_line (w, fr, ns)) = Inr (w, fr, ns)"
  by (simp add: load_line_def save_line_def word_ok_def str_split_three str_int_nospace
      str_int_nonempty parse_int_str_int)

lemma lines_from_noeol:
  "\<forall>c\<in>set l. c \<noteq> CHR 0x0A \<and> c \<noteq> CHR 0x0D \<Longrightarrow>
     lines_from cur (l @ CHR 0x0A # rest) = (cur @ l) # lines_from [] rest"
  by (induction l arbitrary: cur) auto

lemma file_lines_concat:
  "\<forall>l\<in>set ls. \<forall>c\<in>set l. c \<noteq> CHR 0x0A \<and> c \<noteq> CHR 0x0D \<Longrightarrow>
     file_lines (concat (map (\<lambda>l. l @ [CHR 0x0A]) ls)) = ls"
  unfolding file_lines_def
  by (induction ls) (auto simp: lines_from_noeol)

lemma not_space_noeol: "\<not> is_space c \<Longrightarrow> c \<noteq> CHR 0x0A \<and> c \<noteq> CHR 0x0D"
  by (auto simp: is_space_def)

lemma save_line_noeol:
  "word_ok w \<Longrightarrow> \<forall>c\<in>set (save_line (w, fr, ns)). c \<noteq> CHR 0x0A \<and> c \<noteq> CHR 0x0D"
  using str_int_nospace not_space_noeol by (auto simp: save_line_def word_ok_def)

lemma file_lines_save:
  "\<forall>e\<in>set table. word_ok (fst e) \<Longrightarrow> file_lines (save_ns_table table) = map save_line table"
proof -
  assume a: "\<forall>e\<in>set table. word_ok (fst e)"
  have "\<forall>l\<in>set (map save_line table). \<forall>c\<in>set l. c \<noteq> CHR 0x0A \<and> c \<noteq> CHR 0x0D"
    using a save_line_noeol by fastforce
  from file_lines_concat [OF this] show ?thesis
    by (simp add: save_ns_table_def comp_def)
qed

lemma load_lines_save:
  "\<forall>e\<in>set table. word_ok (fst e) \<Longrightarrow> load_lines (map save_line table) out = Inr (out @ table)"
  by (induction table arbitrary: out) (auto simp: load_save_line)

text \<open>
  Claim C8, amended. For every table whose words are non-empty and contain no whitespace
  (and any integer frequencies and slots, the non-negative ones among them), loading what
  \<open>save_ns_table\<close> wrote gives the table back, entry by entry and in order; and saving
  the loaded table reproduces that file.
\<close>

theorem save_load_roundtrip:
  assumes "\<forall>e\<in>set table. word_ok (fst e)"
  shows "load_ns_table (save_ns_table table) = Inr table
       \<and> (case load_ns_table (save_ns_table table) of
            Inr t \<Rightarrow> save_ns_table t = save_ns_table table
          | Inl e \<Rightarrow> False)"
  using assms by (simp add: load_ns_table_def file_lines_save load_lines_save)

theorem save_load_roundtrip_witness:
  "word_ok ''<UNKNOWN>'' \<and> word_ok ''the''
     \<and> load_ns_table (save_ns_table [(''<UNKNOWN>'', 12, 5), (''the'', 340, 11)])
         = Inr [(''<UNKNOWN>'', 12, 5), (''the'', 340, 11)]"
  using save_load_roundtrip [of "[(''<UNKNOWN>'', 12, 5), (''the'', 340, 11)]"]
  by (simp add: word_ok_def is_space_def)

text \<open>
  The claim as stated fails twice. The empty word contains no whitespace, and the line saved
  for it has two fields only, so loading raises. And a file whose lines are well-formed in
  the sense of the loader need not be reproduced: \<^verbatim>\<open>01\<close> is read as 1 and written
  as \<^verbatim>\<open>1\<close>.
\<close>

theorem save_load_empty_word:
  "list_all (\<lambda>c. \<not> is_space c) (fst ('''', 3::int, 4::int))
     \<and> load_ns_table (save_ns_table [('''', 3, 4)]) = Inl IndexError
     \<and> load_ns_table (''a 01 2'' @ [CHR 0x0A]) = Inr [(''a'', 1, 2)]
     \<and> save_ns_table [(''a'', 1, 2)] = ''a 1 2'' @ [CHR 0x0A]"
  by (simp add: load_ns_table_def save_ns_table_def save_line_def file_lines_def str_int_def
      str_nat.simps digit_char_def load_line_def str_split_def is_space_def parse_int_def
      parse_nat_def is_digit_def digit_val_def)

section \<open>The vocabulary: size, sentinel and order\<close>

lemma counter_add_distinct:
  "distinct (map fst al) \<Longrightarrow> distinct (map fst (counter_add w al))"
  by (simp add: counter_add_def distinct_update)

lemma counter_add_keys: "fst ` set (counter_add w al) = insert w (fst ` set al)"
  by (simp add: counter_add_def dom_update)

lemma counter_add_cnt: "cnt (counter_add w al) v = cnt al v + (if v = w then 1 else 0)"
  by (simp add: counter_add_def cnt_def update_conv' split: option.splits)

lemma fold_counter_distinct:
  "distinct (map fst al) \<Longrightarrow> distinct (map fst (fold counter_add toks al))"
  by (induction toks arbitrary: al) (simp_all add: counter_add_distinct)

lemma fold_counter_keys:
  "fst ` set (fold counter_add toks al) = fst ` set al \<union> set toks"
  by (induction toks arbitrary: al) (auto simp: counter_add_keys)

lemma fold_counter_cnt:
  "cnt (fold counter_add toks al) v = cnt al v + count_list toks v"
  by (induction toks arbitrary: al) (simp_all add: counter_add_cnt)

lemma fold_fold_concat: "fold (\<lambda>x. fold f (g x)) xs a = fold f (concat (map g xs)) a"
  by (induction xs arbitrary: a) simp_all

lemma count_corpus_fold:
  "count_corpus lc content = fold counter_add (corpus_tokens lc content) []"
  by (simp add: count_corpus_def corpus_tokens_def counter_update_def fold_fold_concat)

lemma count_corpus_distinct: "distinct (map fst (count_corpus lc content))"
  by (simp add: count_corpus_fold fold_counter_distinct)

lemma count_corpus_keys:
  "fst ` set (count_corpus lc content) = set (corpus_tokens lc content)"
  by (simp add: count_corpus_fold fold_counter_keys)

lemma count_corpus_entry:
  assumes "(w, c) \<in> set (count_corpus lc content)"
  shows "c = count_list (corpus_tokens lc content) w"
proof -
  have "map_of (count_corpus lc content) w = Some c"
    using assms count_corpus_distinct by simp
  then have "cnt (count_corpus lc content) w = c" by (simp add: cnt_def)
  moreover have "cnt (count_corpus lc content) w = count_list (corpus_tokens lc content) w"
    unfolding count_corpus_fold by (simp add: fold_counter_cnt) (simp add: cnt_def)
  ultimately show ?thesis by simp
qed

lemma count_corpus_length:
  "length (count_corpus lc content) = card (set (corpus_tokens lc content))"
proof -
  have "card (set (map fst (count_corpus lc content))) = length (map fst (count_corpus lc content))"
    using count_corpus_distinct by (rule distinct_card)
  then show ?thesis by (simp add: count_corpus_keys)
qed

lemma sorted_desc_set: "set (sorted_desc items) = set items"
  by (simp add: sorted_desc_def)

lemma sorted_desc_length: "length (sorted_desc items) = length items"
  by (simp add: sorted_desc_def)

lemma sorted_desc_distinct:
  "distinct (map fst items) \<Longrightarrow> distinct (map fst (sorted_desc items))"
  by (simp add: sorted_desc_def distinct_map)

lemma sorted_desc_sorted:
  assumes "distinct (map fst items)"
  shows "sorted_wrt above (sorted_desc items)"
proof -
  let ?key = "\<lambda>p :: string \<times> nat. (snd p, fst p)"
  let ?ys = "sort_key ?key (rev items)"
  have s: "sorted (map ?key ?ys)" by (rule sorted_sort_key)
  have "distinct ?ys" using assms by (simp add: distinct_map)
  have inj: "inj_on ?key (set ?ys)" by (auto simp: inj_on_def)
  have "distinct (map ?key ?ys)"
    using \<open>distinct ?ys\<close> inj by (simp add: distinct_map)
  with s have "sorted_wrt (<) (map ?key ?ys)" by (simp add: strict_sorted_iff)
  then have "sorted_wrt (\<lambda>a b. ?key a < ?key b) ?ys" by (simp add: sorted_wrt_map)
  then have "sorted_wrt (\<lambda>a b. ?key b < ?key a) (rev ?ys)" by (simp add: sorted_wrt_rev)
  moreover have "\<And>a b. ?key b < ?key a \<Longrightarrow> above a b"
    by (auto simp: above_def less_prod_def)
  ultimately have "sorted_wrt above (rev ?ys)"
    by (rule sorted_wrt_mono_rel [rotated]) simp
  then show ?thesis by (simp add: sorted_desc_def)
qed

lemma freqs_sorted_shape:
  assumes "1 \<le> p_voc_size p"
  shows "freqs_sorted p content =
     (p_unknown_str p,
      if nat (p_voc_size p - 1) < length (sorted_desc (count_corpus (p_lowercase p) content))
      then sum_list (map snd (drop (nat (p_voc_size p - 1))
             (sorted_desc (count_corpus (p_lowercase p) content))))
      else 1)
     # take (nat (p_voc_size p - 1)) (sorted_desc (count_corpus (p_lowercase p) content))"
  using assms by (auto simp: freqs_sorted_def Let_def slice_from_def slice_to_def)

lemma sum_dropped:
  assumes d: "distinct (map fst fs)"
    and e: "\<forall>(w, c)\<in>set fs. c = count_list toks w"
    and s: "fst ` set fs = set toks"
  shows "sum_list (map snd (drop k fs)) =
     (\<Sum>w\<in>{w \<in> set toks. w \<notin> fst ` set (take k fs)}. count_list toks w)"
proof -
  have d2: "distinct (map fst (drop k fs))"
    using d by (simp add: drop_map [symmetric])
  have m: "map snd (drop k fs) = map (count_list toks) (map fst (drop k fs))"
    using e by (fastforce dest: in_set_dropD)
  have "sum_list (map (count_list toks) (map fst (drop k fs))) =
      sum (count_list toks) (set (map fst (drop k fs)))"
    using d2 by (rule sum_list_distinct_conv_sum_set)
  then have "sum_list (map snd (drop k fs)) = sum (count_list toks) (set (map fst (drop k fs)))"
    by (simp only: m)
  moreover have "set (map fst (drop k fs)) = {w \<in> set toks. w \<notin> fst ` set (take k fs)}"
  proof -
    have "map fst fs = map fst (take k fs) @ map fst (drop k fs)"
      by (simp add: map_append [symmetric])
    with d have dis: "set (map fst (take k fs)) \<inter> set (map fst (drop k fs)) = {}"
      by (metis distinct_append)
    have un: "set (map fst fs) = set (map fst (take k fs)) \<union> set (map fst (drop k fs))"
      by (metis \<open>map fst fs = map fst (take k fs) @ map fst (drop k fs)\<close> set_append)
    show ?thesis using dis un s by auto
  qed
  ultimately show ?thesis by simp
qed

lemma sorted_fs_facts:
  fixes p content
  defines "toks \<equiv> corpus_tokens (p_lowercase p) content"
    and "fs \<equiv> sorted_desc (count_corpus (p_lowercase p) content)"
  shows "distinct (map fst fs)"
    and "\<forall>(w, c)\<in>set fs. c = count_list toks w"
    and "fst ` set fs = set toks"
    and "length fs = card (set toks)"
    and "sorted_wrt above fs"
  unfolding toks_def fs_def
  using count_corpus_entry
  by (auto simp: sorted_desc_distinct count_corpus_distinct sorted_desc_set count_corpus_keys
      sorted_desc_length count_corpus_length sorted_desc_sorted)

lemma sorted_wrt_take_drop:
  "sorted_wrt R xs \<Longrightarrow> a \<in> set (take k xs) \<Longrightarrow> b \<in> set (drop k xs) \<Longrightarrow> R a b"
  using sorted_wrt_append [of R "take k xs" "drop k xs"] by simp

lemma sum_list_ge_length: "\<forall>x\<in>set xs. 1 \<le> x \<Longrightarrow> length xs \<le> sum_list (xs :: nat list)"
  by (induction xs) auto

lemma freqs_sorted_positive:
  assumes "1 \<le> p_voc_size p"
  shows "\<forall>e\<in>set (freqs_sorted p content). 1 \<le> snd e"
proof -
  let ?toks = "corpus_tokens (p_lowercase p) content"
  let ?fs = "sorted_desc (count_corpus (p_lowercase p) content)"
  let ?k = "nat (p_voc_size p - 1)"
  have ent: "\<forall>(w, c)\<in>set ?fs. c = count_list ?toks w" by (rule sorted_fs_facts)
  have keys: "fst ` set ?fs = set ?toks" by (rule sorted_fs_facts)
  have pos: "\<forall>e\<in>set ?fs. 1 \<le> snd e"
  proof
    fix e assume e: "e \<in> set ?fs"
    then have "fst e \<in> set ?toks" using keys by force
    then have "count_list ?toks (fst e) \<noteq> 0" by (simp only: count_list_0_iff) simp
    then have "0 < count_list ?toks (fst e)" by simp
    moreover have "snd e = count_list ?toks (fst e)" using ent e by (cases e) auto
    ultimately show "1 \<le> snd e" by simp
  qed
  have tk: "\<forall>e\<in>set (take ?k ?fs). 1 \<le> snd e"
    using pos by (auto dest: in_set_takeD)
  have "?k < length ?fs \<longrightarrow> 1 \<le> sum_list (map snd (drop ?k ?fs))"
  proof
    assume k: "?k < length ?fs"
    have "\<forall>x\<in>set (map snd (drop ?k ?fs)). 1 \<le> x"
      using pos by (auto dest: in_set_dropD)
    then have "length (map snd (drop ?k ?fs)) \<le> sum_list (map snd (drop ?k ?fs))"
      by (rule sum_list_ge_length)
    then show "1 \<le> sum_list (map snd (drop ?k ?fs))" using k by simp
  qed
  then show ?thesis
    using tk by (simp add: freqs_sorted_shape [OF assms])
qed

lemma ns_freqs_ok:
  "\<forall>e\<in>set fs. 1 \<le> snd e \<Longrightarrow>
     \<exists>al Z. ns_freqs e fs tbl s = Inr (al, Z) \<and> s \<le> Z \<and> (fs \<noteq> [] \<longrightarrow> s < Z)"
proof (induction fs arbitrary: tbl s)
  case Nil
  show ?case by simp
next
  case (Cons a fs)
  obtain w f where a: "a = (w, f)" by (cases a)
  have f: "f \<noteq> 0" using Cons.prems by (simp add: a)
  then have pw: "py_pow f e = Inr (real f powr e)" by (simp add: py_pow_def)
  have gt: "0 < real f powr e" using f by simp
  from Cons.prems have "\<forall>e\<in>set fs. 1 \<le> snd e" by simp
  from Cons.IH [OF this, of "AList.update w (real f powr e) tbl" "s + real f powr e"]
  obtain al Z where n: "ns_freqs e fs (AList.update w (real f powr e) tbl) (s + real f powr e)
      = Inr (al, Z)" and le: "s + real f powr e \<le> Z"
    by blast
  have r: "ns_freqs e (a # fs) tbl s = Inr (al, Z)" by (simp add: a pw n)
  have "s < Z" using gt le by linarith
  then show ?case using r by auto
qed

lemma make_ns_table_shape:
  assumes "1 \<le> p_voc_size p"
  shows "\<exists>slot. make_ns_table p content =
     Inr (map (\<lambda>(w, freq). (w, int freq, slot w)) (freqs_sorted p content))"
proof -
  have ne: "freqs_sorted p content \<noteq> []"
    by (simp add: freqs_sorted_shape [OF assms])
  from ns_freqs_ok [OF freqs_sorted_positive [OF assms],
      where e = "p_ns_exp p" and tbl = "[]" and s = 0]
  obtain al Z where r: "ns_freqs (p_ns_exp p) (freqs_sorted p content) [] 0 = Inr (al, Z)"
    and "freqs_sorted p content \<noteq> [] \<longrightarrow> 0 < Z"
    by blast
  with ne have "Z \<noteq> 0" by simp
  then show ?thesis
    by (auto simp: make_ns_table_def Let_def r)
qed

lemma make_ns_table_words:
  assumes "1 \<le> p_voc_size p"
  shows "map_sum id (map (\<lambda>(w, f, s). (w, f))) (make_ns_table p content)
     = Inr (map (\<lambda>(w, f). (w, int f)) (freqs_sorted p content))"
proof -
  obtain slot where "make_ns_table p content =
      Inr (map (\<lambda>(w, freq). (w, int freq, slot w)) (freqs_sorted p content))"
    using make_ns_table_shape [OF assms] by blast
  then show ?thesis by (simp add: comp_def case_prod_unfold)
qed

lemma build_generator_shape:
  assumes "1 \<le> p_voc_size p"
  shows "\<exists>slot. build_generator p content =
     generator_init (map (\<lambda>(w, freq). (w, int freq, slot w)) (freqs_sorted p content)) p"
proof -
  obtain slot where "make_ns_table p content =
      Inr (map (\<lambda>(w, freq). (w, int freq, slot w)) (freqs_sorted p content))"
    using make_ns_table_shape [OF assms] by blast
  then have "build_generator p content =
      generator_init (map (\<lambda>(w, freq). (w, int freq, slot w)) (freqs_sorted p content)) p"
    by (simp add: build_generator_def)
  then show ?thesis by blast
qed

lemmas text_eval = file_lines_def tokens_of_def str_split_def str_lower_def char_lower_def
  is_space_def

lemmas freqs_eval = freqs_sorted_def sorted_desc_def count_corpus_def counter_update_def
  counter_add_def slice_from_def slice_to_def main_params_def text_eval Let_def

text \<open>
  Claim C3, amended. For every corpus and every \<open>voc_size \<ge> 1\<close> the table has exactly
  \<open>min (distinct_words + 1) voc_size\<close> entries and starts with the sentinel. When at
  least one word is excluded by the size cap (\<open>distinct_words > voc_size - 1\<close>), the
  sentinel's frequency is the sum of the raw frequencies of the excluded words; when no
  word is excluded, it is 1.
\<close>

theorem vocabulary_size_and_sentinel:
  assumes "1 \<le> p_voc_size p"
  shows "\<exists>T. make_ns_table p content = Inr T
       \<and> length T =
           min (card (set (corpus_tokens (p_lowercase p) content)) + 1) (nat (p_voc_size p))
       \<and> fst (hd T) = p_unknown_str p
       \<and> fst (snd (hd T)) =
           (if p_voc_size p - 1 < int (card (set (corpus_tokens (p_lowercase p) content)))
            then int (\<Sum>w\<in>{w \<in> set (corpus_tokens (p_lowercase p) content).
                              w \<notin> fst ` set (tl T)}.
                        count_list (corpus_tokens (p_lowercase p) content) w)
            else 1)"
proof -
  let ?toks = "corpus_tokens (p_lowercase p) content"
  let ?fs = "sorted_desc (count_corpus (p_lowercase p) content)"
  let ?k = "nat (p_voc_size p - 1)"
  obtain slot where T: "make_ns_table p content =
      Inr (map (\<lambda>(w, freq). (w, int freq, slot w)) (freqs_sorted p content))"
    using make_ns_table_shape [OF assms] by blast
  let ?T = "map (\<lambda>(w, freq). (w, int freq, slot w)) (freqs_sorted p content) :: ns_entry list"
  note F = freqs_sorted_shape [OF assms, of content]
  have len: "length ?fs = card (set ?toks)" by (rule sorted_fs_facts)
  have 1: "length ?T = min (card (set ?toks) + 1) (nat (p_voc_size p))"
    using assms by (simp add: F len)
  have 2: "fst (hd ?T) = p_unknown_str p"
    by (simp add: F)
  have tl: "fst ` set (tl ?T) = fst ` set (take ?k ?fs)"
    by (force simp: F)
  have sd: "sum_list (map snd (drop ?k ?fs)) =
     (\<Sum>w\<in>{w \<in> set ?toks. w \<notin> fst ` set (take ?k ?fs)}. count_list ?toks w)"
    by (rule sum_dropped) (rule sorted_fs_facts)+
  have cond: "(p_voc_size p - 1 < int (card (set ?toks))) = (?k < length ?fs)"
    using assms by (simp add: len) linarith
  have 3: "fst (snd (hd ?T)) =
           (if p_voc_size p - 1 < int (card (set ?toks))
            then int (\<Sum>w\<in>{w \<in> set ?toks. w \<notin> fst ` set (tl ?T)}.
                        count_list ?toks w)
            else 1)"
    unfolding tl cond by (simp add: F sd)
  from T 1 2 3 show ?thesis by blast
qed

theorem vocabulary_size_and_sentinel_witness:
  "\<exists>T. make_ns_table (main_params\<lparr>p_voc_size := 2\<rparr>) ''a b a c'' = Inr T
     \<and> length T = 2 \<and> fst (snd (hd T)) = 2"
proof -
  let ?P = "main_params\<lparr>p_voc_size := 2\<rparr>"
  let ?X = "''a b a c''"
  let ?toks = "corpus_tokens (p_lowercase ?P) ?X"
  have h: "1 \<le> p_voc_size ?P"
    by (simp add: main_params_def)
  from vocabulary_size_and_sentinel [OF h, of ?X]
  obtain T where mk: "make_ns_table ?P ?X = Inr T"
    and L: "length T = min (card (set ?toks) + 1) (nat (p_voc_size ?P))"
    and H: "fst (snd (hd T)) =
      (if p_voc_size ?P - 1 < int (card (set ?toks))
       then int (\<Sum>w\<in>{w \<in> set ?toks. w \<notin> fst ` set (tl T)}. count_list ?toks w)
       else 1)"
    by (elim exE conjE)
  have t: "?toks = [''a'', ''b'', ''a'', ''c'']"
    by (simp add: main_params_def corpus_tokens_def text_eval)
  have c: "card (set [''a'', ''b'', ''a'', ''c'']) = 3"
    by (simp add: card_insert_if)
  have fs: "freqs_sorted ?P ?X = [(''<UNKNOWN>'', 2), (''a'', 2)]"
    by (simp add: freqs_eval)
  have "map_sum id (map (\<lambda>(w, f, s). (w, f))) (make_ns_table ?P ?X)
      = Inr (map (\<lambda>(w, f). (w, int f)) (freqs_sorted ?P ?X))"
    using h by (rule make_ns_table_words)
  then have "map (\<lambda>(w, f, s). (w, f)) T = [(''<UNKNOWN>'', 2), (''a'', 2)]"
    by (simp add: mk fs)
  then have "map fst (map (\<lambda>(w, f, s). (w, f)) (tl T)) = [''a'']"
    by (simp add: map_tl)
  then have "map fst (tl T) = [''a'']"
    by (simp add: comp_def case_prod_unfold)
  then have "set (map fst (tl T)) = {''a''}" by simp
  then have img: "fst ` set (tl T) = {''a''}" by simp
  have e: "{w \<in> set [''a'', ''b'', ''a'', ''c'']. w \<notin> {''a''}} = {''b'', ''c''}"
    by auto
  have s: "(\<Sum>w\<in>{''b'', ''c''}. count_list [''a'', ''b'', ''a'', ''c''] w) = 2"
    by simp
  have v: "min (card (set ?toks) + 1) (nat (p_voc_size ?P)) = 2"
    unfolding t c by (simp add: main_params_def)
  have cond: "p_voc_size ?P - 1 < int (card (set ?toks))"
    unfolding t c by (simp add: main_params_def)
  from L v have 1: "length T = 2" by (rule trans)
  from H cond have "fst (snd (hd T)) =
      int (\<Sum>w\<in>{w \<in> set ?toks. w \<notin> fst ` set (tl T)}. count_list ?toks w)"
    by (simp only: if_True)
  then have 2: "fst (snd (hd T)) = 2"
    unfolding img t e s by simp
  from mk 1 2 show ?thesis by blast
qed

text \<open>
  The claim as stated fails when no word is excluded: for the corpus \<^verbatim>\<open>a\<close> and
  \<open>voc_size = 10\<close> the excluded frequencies sum to 0, and the sentinel holds 1.
\<close>

theorem sentinel_without_excluded_words:
  "map_sum id (map (\<lambda>(w, f, s). (w, f)))
     (make_ns_table (main_params\<lparr>p_voc_size := 10\<rparr>) ''a'')
     = Inr [(''<UNKNOWN>'', 1), (''a'', 1)]
   \<and> (\<Sum>w\<in>{w \<in> set (corpus_tokens True ''a''). w \<notin> set [''a'']}.
         count_list (corpus_tokens True ''a'') w) = 0"
proof -
  have h: "1 \<le> p_voc_size (main_params\<lparr>p_voc_size := 10\<rparr>)"
    by (simp add: main_params_def)
  have "freqs_sorted (main_params\<lparr>p_voc_size := 10\<rparr>) ''a''
      = [(''<UNKNOWN>'', 1), (''a'', 1)]"
    by (simp add: freqs_eval)
  then have 1: "map_sum id (map (\<lambda>(w, f, s). (w, f)))
     (make_ns_table (main_params\<lparr>p_voc_size := 10\<rparr>) ''a'')
     = Inr [(''<UNKNOWN>'', 1), (''a'', 1)]"
    by (simp add: make_ns_table_words [OF h])
  have 2: "(\<Sum>w\<in>{w \<in> set (corpus_tokens True ''a''). w \<notin> set [''a'']}.
         count_list (corpus_tokens True ''a'') w) = 0"
    by (simp add: corpus_tokens_def text_eval)
  from 1 2 show ?thesis by (rule conjI)
qed

text \<open>
  Claim C5, amended. For \<open>voc_size \<ge> 1\<close>, the entries after the sentinel are sorted by
  descending frequency with ties broken by descending order of the word string; they are
  \<open>min distinct_words (voc_size - 1)\<close> words of the corpus, each with its raw frequency;
  and every corpus word that is not retained ranks below every retained entry in this
  order.
\<close>

theorem retained_words_order:
  assumes "1 \<le> p_voc_size p"
  shows "\<exists>T. make_ns_table p content = Inr T
       \<and> sorted_wrt ranks_above (tl T)
       \<and> length (tl T) =
           min (card (set (corpus_tokens (p_lowercase p) content))) (nat (p_voc_size p - 1))
       \<and> (\<forall>e\<in>set (tl T).
             fst e \<in> set (corpus_tokens (p_lowercase p) content)
           \<and> fst (snd e) = int (count_list (corpus_tokens (p_lowercase p) content) (fst e)))
       \<and> (\<forall>w\<in>set (corpus_tokens (p_lowercase p) content).
             w \<notin> fst ` set (tl T) \<longrightarrow>
             (\<forall>e\<in>set (tl T).
                ranks_above e
                  (w, int (count_list (corpus_tokens (p_lowercase p) content) w), 0)))"
proof -
  let ?toks = "corpus_tokens (p_lowercase p) content"
  let ?fs = "sorted_desc (count_corpus (p_lowercase p) content)"
  let ?k = "nat (p_voc_size p - 1)"
  obtain slot where T: "make_ns_table p content =
      Inr (map (\<lambda>(w, freq). (w, int freq, slot w)) (freqs_sorted p content))"
    using make_ns_table_shape [OF assms] by blast
  let ?T = "map (\<lambda>(w, freq). (w, int freq, slot w)) (freqs_sorted p content) :: ns_entry list"
  let ?h = "\<lambda>(w, freq). (w, int freq, slot w) :: ns_entry"
  note F = freqs_sorted_shape [OF assms, of content]
  have tl: "tl ?T = map ?h (take ?k ?fs)"
    by (simp add: F)
  have len: "length ?fs = card (set ?toks)" by (rule sorted_fs_facts)
  have dist: "distinct (map fst ?fs)" by (rule sorted_fs_facts)
  have ent: "\<forall>(w, c)\<in>set ?fs. c = count_list ?toks w" by (rule sorted_fs_facts)
  have keys: "fst ` set ?fs = set ?toks" by (rule sorted_fs_facts)
  have srt: "sorted_wrt above ?fs" by (rule sorted_fs_facts)
  have ab: "\<And>a b. above a b \<Longrightarrow> ranks_above (?h a) (?h b)"
    by (auto simp: above_def ranks_above_def)
  have "sorted_wrt above (take ?k ?fs)"
    using srt sorted_wrt_append [of above "take ?k ?fs" "drop ?k ?fs"] by simp
  then have "sorted_wrt (\<lambda>a b. ranks_above (?h a) (?h b)) (take ?k ?fs)"
    by (rule sorted_wrt_mono_rel [rotated]) (rule ab)
  then have 1: "sorted_wrt ranks_above (tl ?T)"
    by (simp add: tl sorted_wrt_map)
  have 2: "length (tl ?T) = min (card (set ?toks)) ?k"
    by (simp add: tl len)
  have 3: "\<forall>e\<in>set (tl ?T).
             fst e \<in> set ?toks \<and> fst (snd e) = int (count_list ?toks (fst e))"
  proof
    fix e assume "e \<in> set (tl ?T)"
    then obtain w c where wc: "(w, c) \<in> set (take ?k ?fs)" and e: "e = (w, int c, slot w)"
      by (auto simp: tl)
    from wc have in_fs: "(w, c) \<in> set ?fs" by (rule in_set_takeD)
    then have "c = count_list ?toks w" using ent by auto
    moreover have "w \<in> set ?toks" using in_fs keys by force
    ultimately show "fst e \<in> set ?toks \<and> fst (snd e) = int (count_list ?toks (fst e))"
      by (simp add: e)
  qed
  have 4: "\<forall>w\<in>set ?toks. w \<notin> fst ` set (tl ?T) \<longrightarrow>
             (\<forall>e\<in>set (tl ?T).
                ranks_above e (w, int (count_list ?toks w), 0))"
  proof (intro ballI impI)
    fix w e
    assume w: "w \<in> set ?toks" and nin: "w \<notin> fst ` set (tl ?T)"
      and e: "e \<in> set (tl ?T)"
    from e obtain a where a: "a \<in> set (take ?k ?fs)" and ea: "e = ?h a"
      by (auto simp: tl)
    from w keys obtain c where wc: "(w, c) \<in> set ?fs" by force
    then have c: "c = count_list ?toks w" using ent by auto
    have "(w, c) \<notin> set (take ?k ?fs)"
      using nin by (force simp: tl)
    moreover have "set ?fs = set (take ?k ?fs) \<union> set (drop ?k ?fs)"
      by (metis append_take_drop_id set_append)
    ultimately have "(w, c) \<in> set (drop ?k ?fs)" using wc by blast
    with srt a have "above a (w, c)" by (rule sorted_wrt_take_drop)
    then show "ranks_above e (w, int (count_list ?toks w), 0)"
      by (cases a) (auto simp: ea c above_def ranks_above_def)
  qed
  from T 1 2 3 4 show ?thesis by blast
qed

theorem retained_words_order_witness:
  "\<exists>T. make_ns_table (main_params\<lparr>p_voc_size := 3\<rparr>) ''a b a c'' = Inr T
     \<and> sorted_wrt ranks_above (tl T) \<and> length (tl T) = 2"
proof -
  let ?P = "main_params\<lparr>p_voc_size := 3\<rparr>"
  let ?X = "''a b a c''"
  have h: "1 \<le> p_voc_size ?P"
    by (simp add: main_params_def)
  from retained_words_order [OF h, of ?X]
  obtain T where mk: "make_ns_table ?P ?X = Inr T"
    and 1: "sorted_wrt ranks_above (tl T)"
    and L: "length (tl T) =
      min (card (set (corpus_tokens (p_lowercase ?P) ?X))) (nat (p_voc_size ?P - 1))"
    by (elim exE conjE)
  have t: "corpus_tokens (p_lowercase ?P) ?X = [''a'', ''b'', ''a'', ''c'']"
    by (simp add: main_params_def corpus_tokens_def text_eval)
  have c: "card (set [''a'', ''b'', ''a'', ''c'']) = 3"
    by (simp add: card_insert_if)
  have v: "min (card (set (corpus_tokens (p_lowercase ?P) ?X))) (nat (p_voc_size ?P - 1)) = 2"
    unfolding t c by (simp add: main_params_def)
  from L v have 2: "length (tl T) = 2" by (rule trans)
  from mk 1 2 show ?thesis by blast
qed

text \<open>
  The claim as stated fails on a tie: \<^verbatim>\<open>a\<close> and \<^verbatim>\<open>b\<close> both occur once, and
  \<^verbatim>\<open>b\<close> comes first.
\<close>

theorem tie_order_descending:
  "map_sum id (map (\<lambda>(w, f, s). (w, f))) (make_ns_table main_params ''a b'')
     = Inr [(''<UNKNOWN>'', 1), (''b'', 1), (''a'', 1)]"
proof -
  have h: "1 \<le> p_voc_size main_params"
    by (simp add: main_params_def)
  have "freqs_sorted main_params ''a b'' = [(''<UNKNOWN>'', 1), (''b'', 1), (''a'', 1)]"
    by (simp add: freqs_eval)
  then show ?thesis
    by (simp add: make_ns_table_words [OF h])
qed

section \<open>The context generator: where every pair comes from\<close>

lemmas gen_eval = batches_def generator_init_def make_voc_def voc_step_def prune_prob_def
  small_params_def main_params_def encode_def prune_def text_eval randint_widths_def
  init_state_def Let_def upto.simps

lemma example_generator_init:
  "generator_init example_table small_params = Inr example_generator"
  by (simp add: example_table_def example_generator_def gen_eval)

lemma erase_fields [simp]:
  "widths (erase_state t) = t_widths t"
  "width_ix (erase_state t) = t_width_ix t"
  "draws (erase_state t) = t_draws t"
  "word_count (erase_state t) = t_word_count t"
  "out_t (erase_state t) = map (fst \<circ> ev_pair) (t_out t)"
  "out_c (erase_state t) = map (snd \<circ> ev_pair) (t_out t)"
  "yielded (erase_state t) = map erase_batch (t_yielded t)"
  by (simp_all add: erase_state_def erase_batch_def)

lemma erase_emit:
  "(erase_state t)\<lparr>out_t := map (fst \<circ> ev_pair) (t_out t) @ [enc ! i],
                    out_c := map (snd \<circ> ev_pair) (t_out t) @ [enc ! j]\<rparr>
     = erase_state (t\<lparr>t_out := t_out t @ [(n, enc, i, j, w)]\<rparr>)"
  by (simp add: erase_state_def erase_batch_def ev_pair_def)

lemma erase_yield:
  "(erase_state t)\<lparr>yielded := map erase_batch (t_yielded t) @ [erase_batch (t_out t)],
                    widths := ws, draws := d, width_ix := 0, out_t := [], out_c := []\<rparr>
     = erase_state (t\<lparr>t_yielded := t_yielded t @ [t_out t], t_widths := ws, t_draws := d,
                      t_width_ix := 0, t_out := []\<rparr>)"
  by (simp add: erase_state_def erase_batch_def)

lemma erase_width_ix:
  "(erase_state t)\<lparr>width_ix := k\<rparr> = erase_state (t\<lparr>t_width_ix := k\<rparr>)"
  by (simp add: erase_state_def)

lemma erase_word_count:
  "(erase_state t)\<lparr>word_count := k\<rparr> = erase_state (t\<lparr>t_word_count := k\<rparr>)"
  by (simp add: erase_state_def)

lemma ctx_sim:
  "ctx_loop g rng enc i js (erase_state t) = erase_state (ctx_loop_tr g rng n enc w i js t)"
proof (induction js arbitrary: t)
  case Nil
  show ?case by simp
next
  case (Cons j js)
  show ?case
  proof (cases "j \<noteq> int i")
    case False
    then show ?thesis using Cons.IH [of t] by simp
  next
    case True
    let ?t1 = "t\<lparr>t_out := t_out t @ [(n, enc, i, nat j, w)]\<rparr>"
    have e1: "(erase_state t)\<lparr>out_t := out_t (erase_state t) @ [enc ! i],
                out_c := out_c (erase_state t) @ [enc ! nat j]\<rparr> = erase_state ?t1"
      using erase_emit [where t=t and enc=enc and i=i and j="nat j" and n=n and w=w] by simp
    show ?thesis
    proof (cases "length (t_out ?t1) = batch_size g")
      case full: True
      let ?t2 = "?t1\<lparr>t_yielded := t_yielded ?t1 @ [t_out ?t1],
                     t_widths := randint_widths g rng (t_draws ?t1),
                     t_draws := Suc (t_draws ?t1), t_width_ix := 0, t_out := []\<rparr>"
      have e2: "(erase_state ?t1)\<lparr>yielded := yielded (erase_state ?t1)
                    @ [(out_t (erase_state ?t1), out_c (erase_state ?t1))],
                  widths := randint_widths g rng (draws (erase_state ?t1)),
                  draws := Suc (draws (erase_state ?t1)),
                  width_ix := 0, out_t := [], out_c := []\<rparr> = erase_state ?t2"
        using erase_yield [where t="?t1" and ws="randint_widths g rng (t_draws ?t1)"
            and d="Suc (t_draws ?t1)"]
        by (simp add: erase_batch_def)
      have "ctx_loop g rng enc i (j # js) (erase_state t)
          = ctx_loop g rng enc i js (erase_state ?t2)"
        using True full by (simp only: ctx_loop.simps if_True Let_def e1 e2) simp
      also have "\<dots> = erase_state (ctx_loop_tr g rng n enc w i js ?t2)"
        by (rule Cons.IH)
      also have "\<dots> = erase_state (ctx_loop_tr g rng n enc w i (j # js) t)"
        using True full by (simp add: Let_def)
      finally show ?thesis .
    next
      case notfull: False
      have "ctx_loop g rng enc i (j # js) (erase_state t)
          = ctx_loop g rng enc i js (erase_state ?t1)"
        using True notfull by (simp only: ctx_loop.simps if_True Let_def e1) simp
      also have "\<dots> = erase_state (ctx_loop_tr g rng n enc w i js ?t1)"
        by (rule Cons.IH)
      also have "\<dots> = erase_state (ctx_loop_tr g rng n enc w i (j # js) t)"
        using True notfull by (simp add: Let_def)
      finally show ?thesis .
    qed
  qed
qed

lemma pos_sim:
  "pos_loop g rng enc is (erase_state t)
     = map_prod erase_state id (pos_loop_tr g rng n enc is t)"
proof (induction "is" arbitrary: t)
  case Nil
  show ?case by simp
next
  case (Cons i "is")
  show ?case
  proof (cases "t_width_ix t < length (t_widths t)")
    case False
    then show ?thesis by simp
  next
    case True
    let ?w = "t_widths t ! t_width_ix t"
    let ?js = "[max 0 (int i - ?w)..min (int i + ?w + 1) (int (length enc)) - 1]"
    let ?t1 = "t\<lparr>t_width_ix := Suc (t_width_ix t)\<rparr>"
    have "pos_loop g rng enc (i # is) (erase_state t)
        = pos_loop g rng enc is (ctx_loop g rng enc i ?js (erase_state ?t1))"
      using True by (simp add: Let_def erase_width_ix)
    also have "\<dots> = pos_loop g rng enc is (erase_state (ctx_loop_tr g rng n enc ?w i ?js ?t1))"
      by (simp only: ctx_sim [of g rng enc i ?js ?t1 n ?w])
    also have "\<dots> = map_prod erase_state id
        (pos_loop_tr g rng n enc is (ctx_loop_tr g rng n enc ?w i ?js ?t1))"
      by (rule Cons.IH)
    also have "\<dots> = map_prod erase_state id (pos_loop_tr g rng n enc (i # is) t)"
      using True by (simp add: Let_def)
    finally show ?thesis .
  qed
qed

lemma line_sim:
  "line_loop g rng noise n ls (erase_state t)
     = map_prod erase_state id (line_loop_tr g rng noise n ls t)"
proof (induction ls arbitrary: n t)
  case Nil
  show ?case by simp
next
  case (Cons l ls)
  let ?enc = "encode g (noise n) l"
  let ?t1 = "t\<lparr>t_word_count := t_word_count t + length (tokens_of (lowercase g) l)\<rparr>"
  obtain t2 r where p: "pos_loop_tr g rng n ?enc [0..<length ?enc] ?t1 = (t2, r)"
    by (cases "pos_loop_tr g rng n ?enc [0..<length ?enc] ?t1")
  have q: "pos_loop g rng ?enc [0..<length ?enc] (erase_state ?t1) = (erase_state t2, r)"
    by (simp add: pos_sim [of g rng ?enc _ ?t1 n] p)
  show ?case
  proof (cases r)
    case None
    then show ?thesis
      using p q Cons.IH [of "Suc n" t2] by (simp add: Let_def erase_word_count)
  next
    case (Some e)
    then show ?thesis
      using p q by (simp add: Let_def erase_word_count)
  qed
qed

lemma init_erase: "init_state g rng = erase_state (init_tstate g rng)"
  by (simp add: init_state_def init_tstate_def erase_state_def erase_batch_def)

lemma batches_sim:
  "batches g rng noise content = map_prod (map erase_batch) id (batches_tr g rng noise content)"
proof (cases "ctx_width g < 1")
  case True
  then show ?thesis by (simp add: batches_def batches_tr_def)
next
  case False
  obtain t r where p: "line_loop_tr g rng noise 0 (file_lines content) (init_tstate g rng) = (t, r)"
    by (cases "line_loop_tr g rng noise 0 (file_lines content) (init_tstate g rng)")
  have q: "line_loop g rng noise 0 (file_lines content) (init_state g rng) = (erase_state t, r)"
    by (simp add: init_erase line_sim p)
  show ?thesis
    using False p q by (cases r) (simp_all add: batches_def batches_tr_def erase_batch_def)
qed


lemma randint_widths_range:
  assumes "1 \<le> ctx_width g"
  shows "\<forall>w\<in>set (randint_widths g rng d). 1 \<le> w \<and> w \<le> ctx_width g"
proof
  fix w assume "w \<in> set (randint_widths g rng d)"
  then obtain i where w: "w = 1 + int (rng d i mod nat (ctx_width g))"
    by (auto simp: randint_widths_def)
  have "0 < nat (ctx_width g)" using assms by simp
  then have "rng d i mod nat (ctx_width g) < nat (ctx_width g)" by (rule mod_less_divisor)
  then show "1 \<le> w \<and> w \<le> ctx_width g" using w assms by linarith
qed

lemma ctx_inv:
  assumes "tinv g noise lines t" and "1 \<le> ctx_width g"
    and "n < length lines" and "enc = encode g (noise n) (lines ! n)" and "i < length enc"
    and "1 \<le> w" and "w \<le> ctx_width g"
    and "\<forall>j\<in>set js. max 0 (int i - w) \<le> j \<and> j \<le> min (int (length enc) - 1) (int i + w)"
  shows "tinv g noise lines (ctx_loop_tr g rng n enc w i js t)"
  using assms(1, 8)
proof (induction js arbitrary: t)
  case Nil
  then show ?case by simp
next
  case (Cons j js)
  have rest: "\<forall>j\<in>set js. max 0 (int i - w) \<le> j \<and> j \<le> min (int (length enc) - 1) (int i + w)"
    using Cons.prems(2) by simp
  show ?case
  proof (cases "j \<noteq> int i")
    case False
    then show ?thesis using Cons.IH [OF Cons.prems(1) rest] by simp
  next
    case True
    have jb: "max 0 (int i - w) \<le> j \<and> j \<le> min (int (length enc) - 1) (int i + w)"
      using Cons.prems(2) by simp
    have ok: "ev_ok g noise lines (n, enc, i, nat j, w)"
      using assms(3-7) jb True by (auto simp: ev_ok_def)
    let ?t1 = "t\<lparr>t_out := t_out t @ [(n, enc, i, nat j, w)]\<rparr>"
    have i1: "tinv g noise lines ?t1"
      using Cons.prems(1) ok by (auto simp: tinv_def)
    show ?thesis
    proof (cases "length (t_out ?t1) = batch_size g")
      case full: True
      let ?t2 = "?t1\<lparr>t_yielded := t_yielded ?t1 @ [t_out ?t1],
                     t_widths := randint_widths g rng (t_draws ?t1),
                     t_draws := Suc (t_draws ?t1), t_width_ix := 0, t_out := []\<rparr>"
      have i2: "tinv g noise lines ?t2"
        using i1 randint_widths_range [OF assms(2), of rng "t_draws ?t1"]
        by (auto simp: tinv_def)
      have "ctx_loop_tr g rng n enc w i (j # js) t = ctx_loop_tr g rng n enc w i js ?t2"
        using True full by (simp add: Let_def)
      then show ?thesis using Cons.IH [OF i2 rest] by simp
    next
      case notfull: False
      have "ctx_loop_tr g rng n enc w i (j # js) t = ctx_loop_tr g rng n enc w i js ?t1"
        using True notfull by (simp add: Let_def)
      then show ?thesis using Cons.IH [OF i1 rest] by simp
    qed
  qed
qed

lemma pos_inv:
  assumes "tinv g noise lines t" and "1 \<le> ctx_width g"
    and "n < length lines" and "enc = encode g (noise n) (lines ! n)"
    and "\<forall>i\<in>set is. i < length enc"
  shows "tinv g noise lines (fst (pos_loop_tr g rng n enc is t))"
  using assms(1, 5)
proof (induction "is" arbitrary: t)
  case Nil
  then show ?case by simp
next
  case (Cons i "is")
  show ?case
  proof (cases "t_width_ix t < length (t_widths t)")
    case False
    then show ?thesis using Cons.prems(1) by simp
  next
    case True
    let ?w = "t_widths t ! t_width_ix t"
    let ?js = "[max 0 (int i - ?w)..min (int i + ?w + 1) (int (length enc)) - 1]"
    let ?t1 = "t\<lparr>t_width_ix := Suc (t_width_ix t)\<rparr>"
    have "?w \<in> set (t_widths t)" using True by simp
    then have wr: "1 \<le> ?w" "?w \<le> ctx_width g"
      using Cons.prems(1) by (auto simp: tinv_def)
    have i1: "tinv g noise lines ?t1"
      using Cons.prems(1) by (simp add: tinv_def)
    have il: "i < length enc" using Cons.prems(2) by simp
    have js: "\<forall>j\<in>set ?js. max 0 (int i - ?w) \<le> j \<and> j \<le> min (int (length enc) - 1) (int i + ?w)"
      by auto
    have i2: "tinv g noise lines (ctx_loop_tr g rng n enc ?w i ?js ?t1)"
      by (rule ctx_inv [OF i1 assms(2) assms(3) assms(4) il wr js])
    have rest: "\<forall>i\<in>set is. i < length enc" using Cons.prems(2) by simp
    have "pos_loop_tr g rng n enc (i # is) t
        = pos_loop_tr g rng n enc is (ctx_loop_tr g rng n enc ?w i ?js ?t1)"
      using True by (simp add: Let_def)
    then show ?thesis using Cons.IH [OF i2 rest] by simp
  qed
qed

lemma line_inv:
  assumes "tinv g noise lines t" and "1 \<le> ctx_width g"
    and "drop n lines = ls"
  shows "tinv g noise lines (fst (line_loop_tr g rng noise n ls t))"
  using assms(1, 3)
proof (induction ls arbitrary: n t)
  case Nil
  then show ?case by simp
next
  case (Cons l ls)
  have n: "n < length lines"
    using Cons.prems(2) by (metis drop_eq_Nil leI list.distinct(1))
  have l: "lines ! n = l"
    using Cons.prems(2) n by (metis Cons_nth_drop_Suc list.inject)
  have d: "drop (Suc n) lines = ls"
    using Cons.prems(2) n by (metis Cons_nth_drop_Suc list.inject)
  let ?enc = "encode g (noise n) l"
  let ?t1 = "t\<lparr>t_word_count := t_word_count t + length (tokens_of (lowercase g) l)\<rparr>"
  have i1: "tinv g noise lines ?t1"
    using Cons.prems(1) by (simp add: tinv_def)
  obtain t2 r where p: "pos_loop_tr g rng n ?enc [0..<length ?enc] ?t1 = (t2, r)"
    by (cases "pos_loop_tr g rng n ?enc [0..<length ?enc] ?t1")
  have "tinv g noise lines (fst (pos_loop_tr g rng n ?enc [0..<length ?enc] ?t1))"
    by (rule pos_inv [OF i1 assms(2) n]) (simp_all add: l)
  then have i2: "tinv g noise lines t2" using p by simp
  show ?case
  proof (cases r)
    case None
    then show ?thesis
      using p Cons.IH [OF i2 d] by (simp add: Let_def)
  next
    case (Some e)
    then show ?thesis using p i2 by (simp add: Let_def)
  qed
qed

lemma init_tinv:
  assumes "1 \<le> ctx_width g"
  shows "tinv g noise lines (init_tstate g rng)"
  using randint_widths_range [OF assms, of rng 0] by (simp add: tinv_def init_tstate_def)

lemma batches_tr_ok:
  "\<forall>b\<in>set (fst (batches_tr g rng noise content)).
     \<forall>e\<in>set b. ev_ok g noise (file_lines content) e"
proof (cases "ctx_width g < 1")
  case True
  then show ?thesis by (simp add: batches_tr_def)
next
  case False
  then have cw: "1 \<le> ctx_width g" by simp
  obtain t r where p: "line_loop_tr g rng noise 0 (file_lines content) (init_tstate g rng) = (t, r)"
    by (cases "line_loop_tr g rng noise 0 (file_lines content) (init_tstate g rng)")
  have "tinv g noise (file_lines content)
      (fst (line_loop_tr g rng noise 0 (file_lines content) (init_tstate g rng)))"
    by (rule line_inv [OF init_tinv [OF cw] cw]) simp
  then have "tinv g noise (file_lines content) t" using p by simp
  then show ?thesis
    using False p by (cases r) (auto simp: batches_tr_def tinv_def)
qed

lemma in_update_cases:
  "(k, v) \<in> set (AList.update k' v' al) \<Longrightarrow> (k, v) \<in> set al \<or> (k, v) = (k', v')"
  by (induction al) (auto split: if_splits)

lemma voc_step_entry: "voc_step (i, w, f, s) d = AList.update w i d"
  by (simp add: voc_step_def)

lemma voc_fold_values:
  "(w, i) \<in> set (fold voc_step (enumerate k tbl) acc)
     \<Longrightarrow> (w, i) \<in> set acc \<or> (k \<le> i \<and> i < k + length tbl)"
proof (induction tbl arbitrary: k acc)
  case Nil
  then show ?case by simp
next
  case (Cons e tbl)
  obtain w' f s where e: "e = (w', f, s)" by (cases e)
  from Cons.prems have "(w, i) \<in> set (fold voc_step
      (enumerate (Suc k) tbl) (AList.update w' k acc))"
    by (simp add: e voc_step_entry)
  from Cons.IH [OF this] show ?case
    by (auto dest: in_update_cases)
qed

lemma voc_fold_keys:
  "fst ` set (fold voc_step (enumerate k tbl) acc)
     = fst ` set acc \<union> fst ` set tbl"
proof (induction tbl arbitrary: k acc)
  case Nil
  show ?case by simp
next
  case (Cons e tbl)
  obtain w' f s where e: "e = (w', f, s)" by (cases e)
  show ?case by (simp add: e Cons.IH dom_update voc_step_entry)
qed

lemma voc_fold_distinct:
  "distinct (map fst acc) \<Longrightarrow>
     distinct (map fst (fold voc_step (enumerate k tbl) acc))"
proof (induction tbl arbitrary: k acc)
  case Nil
  then show ?case by simp
next
  case (Cons e tbl)
  obtain w' f s where e: "e = (w', f, s)" by (cases e)
  show ?case using Cons.prems by (simp add: e Cons.IH distinct_update voc_step_entry)
qed

lemma make_voc_values: "(w, i) \<in> set (make_voc tbl) \<Longrightarrow> i < length tbl"
  using voc_fold_values [of w i 0 tbl "[]"] by (simp add: make_voc_def)

lemma make_voc_keys: "fst ` set (make_voc tbl) = fst ` set tbl"
  using voc_fold_keys [of 0 tbl "[]"] by (simp add: make_voc_def)

lemma make_voc_length:
  assumes "distinct (map fst tbl)"
  shows "length (make_voc tbl) = length tbl"
proof -
  have d: "distinct (map fst (make_voc tbl))"
    using voc_fold_distinct [of "[]" 0 tbl] by (simp add: make_voc_def)
  have a: "card (set (map fst (make_voc tbl))) = length (map fst (make_voc tbl))"
    using d by (rule distinct_card)
  have b: "card (set (map fst tbl)) = length (map fst tbl)"
    using assms by (rule distinct_card)
  have "set (map fst (make_voc tbl)) = set (map fst tbl)"
    by (simp add: make_voc_keys)
  with a b show ?thesis by simp
qed

lemma generator_init_voc: "generator_init tbl p = Inr g \<Longrightarrow> voc g = make_voc tbl"
  by (auto simp: generator_init_def Let_def split: sum.splits)

lemma encode_values:
  assumes "x \<in> set (encode g ps line)"
  shows "x = 0 \<or> (\<exists>w. (w, x) \<in> set (voc g))"
proof -
  from assms obtain t where "x = (case map_of (voc g) t of None \<Rightarrow> 0 | Some i \<Rightarrow> i)"
    by (auto simp: encode_def)
  then show ?thesis by (cases "map_of (voc g) t") (auto dest: map_of_SomeD)
qed

lemma prune_subset: "set (prune g ps tokens) \<subseteq> set tokens"
  by (auto simp: prune_def dest: set_zip_leftD)

lemma encode_unknown:
  assumes "\<forall>t\<in>set (tokens_of (lowercase g) line). t \<notin> fst ` set (voc g)"
  shows "\<forall>x\<in>set (encode g ps line). x = 0"
proof
  fix x assume "x \<in> set (encode g ps line)"
  then obtain t where t: "t \<in> set (prune g ps (tokens_of (lowercase g) line))"
    and x: "x = (case map_of (voc g) t of None \<Rightarrow> 0 | Some i \<Rightarrow> i)"
    by (auto simp: encode_def)
  from t prune_subset have "t \<in> set (tokens_of (lowercase g) line)" by blast
  with assms have "t \<notin> fst ` set (voc g)" by blast
  then have "map_of (voc g) t = None" by (simp add: map_of_eq_None_iff)
  with x show "x = 0" by simp
qed

lemma erase_batch_length: "length (fst (erase_batch evs)) = length (snd (erase_batch evs))"
  by (simp add: erase_batch_def)

lemma erase_batch_values:
  assumes "\<forall>e\<in>set evs. ev_ok g noise lines e"
    and "x \<in> set (fst (erase_batch evs)) \<union> set (snd (erase_batch evs))"
  shows "\<exists>n. n < length lines \<and> x \<in> set (encode g (noise n) (lines ! n))"
proof -
  from assms(2) obtain e where e: "e \<in> set evs" and x: "x = fst (ev_pair e) \<or> x = snd (ev_pair e)"
    by (auto simp: erase_batch_def)
  obtain n enc i j w where ev: "e = (n, enc, i, j, w)" by (cases e)
  from assms(1) e have ok: "ev_ok g noise lines e" by blast
  then have "n < length lines" "enc = encode g (noise n) (lines ! n)" "i < length enc" "j < length enc"
    by (auto simp: ev ev_ok_def)
  moreover have "x = enc ! i \<or> x = enc ! j" using x by (simp add: ev ev_pair_def)
  ultimately show ?thesis by (metis nth_mem)
qed

lemma batches_values:
  assumes "b \<in> set (fst (batches g rng noise content))"
  shows "length (fst b) = length (snd b)
     \<and> (\<forall>x\<in>set (fst b) \<union> set (snd b).
          \<exists>n. n < length (file_lines content)
             \<and> x \<in> set (encode g (noise n) (file_lines content ! n)))"
proof -
  from assms obtain evs where evs: "evs \<in> set (fst (batches_tr g rng noise content))"
    and b: "b = erase_batch evs"
    by (auto simp: batches_sim)
  have ok: "\<forall>e\<in>set evs. ev_ok g noise (file_lines content) e"
    using batches_tr_ok evs by blast
  show ?thesis
    unfolding b using erase_batch_length erase_batch_values [OF ok] by blast
qed

text \<open>
  Claim C1, amended. For every generator, corpus and random source, the batches that
  \<open>batches\<close> yields are, batch by batch and pair by pair, the pairs
  \<^verbatim>\<open>(encoded[i], encoded[j])\<close> of recorded events, and every event has
  \<open>j \<noteq> i\<close> and \<open>max 0 (i - w) \<le> j \<le> min (len - 1) (i + w)\<close> for two positions
  \<open>i\<close>, \<open>j\<close> of the pruned and encoded line \<open>n\<close> and the width \<open>w\<close> read for
  position \<open>i\<close>, which is one of \<open>1, \<dots>, ctx_width\<close>. It is the positions that differ:
  the two vocabulary indices of a pair may be equal.
\<close>

theorem batches_pairs_within_window:
  "batches g rng noise content
     = map_prod (map erase_batch) id (batches_tr g rng noise content)
   \<and> (\<forall>b\<in>set (fst (batches_tr g rng noise content)).
         \<forall>e\<in>set b. ev_ok g noise (file_lines content) e)"
  by (rule conjI [OF batches_sim batches_tr_ok])

theorem batches_pairs_within_window_witness:
  "fst (batches example_generator (\<lambda>d i. 0) (\<lambda>n k. 0) ''a b a'')
     = map erase_batch (fst (batches_tr example_generator (\<lambda>d i. 0) (\<lambda>n k. 0) ''a b a''))
   \<and> list_all (list_all (ev_ok example_generator (\<lambda>n k. 0) (file_lines ''a b a'')))
        (fst (batches_tr example_generator (\<lambda>d i. 0) (\<lambda>n k. 0) ''a b a''))
   \<and> fst (batches example_generator (\<lambda>d i. 0) (\<lambda>n k. 0) ''a b a'')
     = [([2], [1]), ([1], [2]), ([1], [2]), ([2], [1])]"
proof -
  note r = batches_pairs_within_window
    [of example_generator "\<lambda>d i. 0" "\<lambda>n k. 0" "''a b a''"]
  have 1: "fst (batches example_generator (\<lambda>d i. 0) (\<lambda>n k. 0) ''a b a'')
     = map erase_batch (fst (batches_tr example_generator (\<lambda>d i. 0) (\<lambda>n k. 0) ''a b a''))"
    using r by simp
  have 2: "list_all (list_all (ev_ok example_generator (\<lambda>n k. 0) (file_lines ''a b a'')))
        (fst (batches_tr example_generator (\<lambda>d i. 0) (\<lambda>n k. 0) ''a b a''))"
    using r by (simp add: list_all_iff)
  have 3: "fst (batches example_generator (\<lambda>d i. 0) (\<lambda>n k. 0) ''a b a'')
     = [([2], [1]), ([1], [2]), ([1], [2]), ([2], [1])]"
    by (simp add: example_generator_def gen_eval)
  from 1 2 3 show ?thesis by (intro conjI)
qed

text \<open>
  The claim as stated fails where a word is its own neighbour: in the corpus \<^verbatim>\<open>a a\<close>
  both emitted pairs have target index 1 and context index 1 (table and generator built
  from that corpus as \<open>main\<close> does).
\<close>

theorem pair_of_equal_indices:
  "map_sum id (\<lambda>g. batches g (\<lambda>d i. 0) (\<lambda>n k. 0) ''a a'')
     (build_generator small_params ''a a'')
   = Inr ([([1], [1]), ([1], [1])], None)"
proof -
  have h: "1 \<le> p_voc_size small_params"
    by (simp add: small_params_def main_params_def)
  obtain slot where b: "build_generator small_params ''a a'' =
      generator_init (map (\<lambda>(w, freq). (w, int freq, slot w))
        (freqs_sorted small_params ''a a'')) small_params"
    using build_generator_shape [OF h] by blast
  have fs: "freqs_sorted small_params ''a a'' = [(''<UNKNOWN>'', 1), (''a'', 2)]"
    by (simp add: small_params_def freqs_eval)
  show ?thesis
    unfolding b fs by (simp add: gen_eval)
qed

text \<open>
  Claim C2 fails on the code. The array of widths has \<open>batch_size\<close> elements and its
  index goes back to 0 only when a batch is yielded, while every target position reads one
  element, also a position that emits no pair. With \<open>batch_size = 1\<close> and two lines of
  one word each, the second position reads \<^verbatim>\<open>widths[1]\<close>: \<^verbatim>\<open>IndexError\<close>, and no
  batch has been yielded.
\<close>

theorem widths_read_out_of_bounds:
  "map_sum id
     (\<lambda>g. batches g (\<lambda>d i. 0) (\<lambda>n k. 0) (''a'' @ [CHR 0x0A] @ ''b'' @ [CHR 0x0A]))
     (build_generator small_params (''a'' @ [CHR 0x0A] @ ''b'' @ [CHR 0x0A]))
   = Inr ([], Some IndexError)"
proof -
  have h: "1 \<le> p_voc_size small_params"
    by (simp add: small_params_def main_params_def)
  obtain slot where b: "build_generator small_params (''a'' @ [CHR 0x0A] @ ''b'' @ [CHR 0x0A]) =
      generator_init (map (\<lambda>(w, freq). (w, int freq, slot w))
        (freqs_sorted small_params (''a'' @ [CHR 0x0A] @ ''b'' @ [CHR 0x0A]))) small_params"
    using build_generator_shape [OF h] by blast
  have fs: "freqs_sorted small_params (''a'' @ [CHR 0x0A] @ ''b'' @ [CHR 0x0A])
      = [(''<UNKNOWN>'', 1), (''b'', 1), (''a'', 1)]"
    by (simp add: small_params_def freqs_eval)
  show ?thesis
    unfolding b fs by (simp add: gen_eval)
qed

section \<open>The context generator: indices and the vocabulary\<close>

text \<open>
  Claim C10 on tables without repeated words. When the words of a non-empty table are
  pairwise distinct, the vocabulary has as many entries as the table, the two lists of every
  batch have the same length, every element of both is below the size of the vocabulary,
  and a line of words that are not in the table is encoded by zeros only.
\<close>

theorem batches_indices_in_vocabulary:
  assumes "generator_init ns_table p = Inr g"
    and "distinct (map fst ns_table)" and "ns_table \<noteq> []"
  shows "length (voc g) = length ns_table
     \<and> (\<forall>b\<in>set (fst (batches g rng noise content)).
           length (fst b) = length (snd b)
         \<and> (\<forall>x\<in>set (fst b) \<union> set (snd b). x < length (voc g)))
     \<and> (\<forall>ps line. (\<forall>t\<in>set (tokens_of (lowercase g) line). t \<notin> fst ` set ns_table)
           \<longrightarrow> (\<forall>x\<in>set (encode g ps line). x = 0))"
proof -
  have v: "voc g = make_voc ns_table" using assms(1) by (rule generator_init_voc)
  have 1: "length (voc g) = length ns_table"
    using assms(2) by (simp add: v make_voc_length)
  have pos: "0 < length ns_table" using assms(3) by simp
  have 2: "\<forall>b\<in>set (fst (batches g rng noise content)).
           length (fst b) = length (snd b)
         \<and> (\<forall>x\<in>set (fst b) \<union> set (snd b). x < length (voc g))"
  proof (intro ballI conjI)
    fix b assume b: "b \<in> set (fst (batches g rng noise content))"
    show "length (fst b) = length (snd b)" using batches_values [OF b] by blast
    fix x assume "x \<in> set (fst b) \<union> set (snd b)"
    then obtain n where "x \<in> set (encode g (noise n) (file_lines content ! n))"
      using batches_values [OF b] by blast
    then have "x = 0 \<or> (\<exists>w. (w, x) \<in> set (make_voc ns_table))"
      using encode_values [of x g] by (simp add: v)
    then show "x < length (voc g)"
      using pos make_voc_values by (auto simp: 1)
  qed
  have 3: "\<forall>ps line. (\<forall>t\<in>set (tokens_of (lowercase g) line). t \<notin> fst ` set ns_table)
           \<longrightarrow> (\<forall>x\<in>set (encode g ps line). x = 0)"
    using encode_unknown [of g] by (simp add: v make_voc_keys)
  from 1 2 3 show ?thesis by blast
qed

theorem batches_indices_in_vocabulary_witness:
  "length (voc example_generator) = 3
   \<and> list_all (\<lambda>b. length (fst b) = length (snd b)
                   \<and> list_all (\<lambda>x. x < length (voc example_generator)) (fst b @ snd b))
        (fst (batches example_generator (\<lambda>d i. 0) (\<lambda>n k. 0) ''a b a''))"
proof -
  have d: "distinct (map fst example_table)" by (simp add: example_table_def)
  have ne: "example_table \<noteq> []" by (simp add: example_table_def)
  note r = batches_indices_in_vocabulary [OF example_generator_init d ne,
    of "\<lambda>d i. 0" "\<lambda>n k. 0" "''a b a''"]
  have "length (voc example_generator) = length example_table"
    using r by (rule conjunct1)
  then have 1: "length (voc example_generator) = 3" by (simp add: example_table_def)
  have "\<forall>b\<in>set (fst (batches example_generator (\<lambda>d i. 0) (\<lambda>n k. 0) ''a b a'')).
           length (fst b) = length (snd b)
         \<and> (\<forall>x\<in>set (fst b) \<union> set (snd b). x < length (voc example_generator))"
    using r by (rule conjunct1 [OF conjunct2])
  then have 2: "list_all (\<lambda>b. length (fst b) = length (snd b)
                   \<and> list_all (\<lambda>x. x < length (voc example_generator)) (fst b @ snd b))
        (fst (batches example_generator (\<lambda>d i. 0) (\<lambda>n k. 0) ''a b a''))"
    by (simp add: list_all_iff)
  from 1 2 show ?thesis by (intro conjI)
qed

text \<open>
  Claim C10 fails on the code when a word occurs twice in the table, which
  \<open>make_ns_table\<close> produces when the unknown string is itself a word of the corpus. For
  the corpus \<^verbatim>\<open><unk> b\<close> with unknown string \<^verbatim>\<open><unk>\<close> the table has three
  entries and the vocabulary two, and the word \<^verbatim>\<open><unk>\<close> is encoded as 2.
\<close>

theorem index_beyond_vocabulary:
  "map_sum id
     (\<lambda>g. (length (voc g), fst (batches g (\<lambda>d i. 0) (\<lambda>n k. 0) ''<unk> b'')))
     (build_generator (small_params\<lparr>p_unknown_str := ''<unk>''\<rparr>) ''<unk> b'')
   = Inr (2, [([2], [1]), ([1], [2])])"
proof -
  let ?P = "small_params\<lparr>p_unknown_str := ''<unk>''\<rparr>"
  have h: "1 \<le> p_voc_size ?P"
    by (simp add: small_params_def main_params_def)
  obtain slot where b: "build_generator ?P ''<unk> b'' =
      generator_init (map (\<lambda>(w, freq). (w, int freq, slot w))
        (freqs_sorted ?P ''<unk> b'')) ?P"
    using build_generator_shape [OF h] by blast
  have fs: "freqs_sorted ?P ''<unk> b'' = [(''<unk>'', 1), (''b'', 1), (''<unk>'', 1)]"
    by (simp add: small_params_def freqs_eval)
  show ?thesis
    unfolding b fs by (simp add: gen_eval)
qed

section \<open>The pruning values\<close>

lemma prune_prob_value:
  assumes "0 < f" and "0 \<le> t" and "0 \<le> N"
  shows "prune_prob t N f = Inr (Fin (1 - sqrt (t * real_of_int N / real_of_int f)))"
proof -
  have "0 \<le> t * real_of_int N" using assms by simp
  moreover have "0 < real_of_int f" using assms by simp
  ultimately have "0 \<le> t * real_of_int N / real_of_int f" by (rule divide_nonneg_pos)
  then have "\<not> t * real_of_int N / real_of_int f < 0" by simp
  then show ?thesis using assms(1) by (simp add: prune_prob_def Let_def)
qed

lemma make_prune_probs_lookup:
  assumes "distinct (map fst tbl)" and "\<forall>e\<in>set tbl. 0 < fst (snd e)"
    and "0 \<le> t" and "0 \<le> N"
  shows "\<exists>probs. make_prune_probs t N tbl acc = Inr probs
     \<and> (\<forall>w f s. (w, f, s) \<in> set tbl \<longrightarrow>
           map_of probs w = Some (Fin (1 - sqrt (t * real_of_int N / real_of_int f))))
     \<and> (\<forall>w. w \<notin> fst ` set tbl \<longrightarrow> map_of probs w = map_of acc w)"
  using assms(1, 2)
proof (induction tbl arbitrary: acc)
  case Nil
  show ?case by simp
next
  case (Cons e tbl)
  obtain w0 f0 s0 where e: "e = (w0, f0, s0)" by (cases e)
  let ?q = "Fin (1 - sqrt (t * real_of_int N / real_of_int f0))"
  have f0: "0 < f0" using Cons.prems(2) by (simp add: e)
  have pp: "prune_prob t N f0 = Inr ?q"
    using f0 assms(3, 4) by (rule prune_prob_value)
  have d: "distinct (map fst tbl)" and nin: "w0 \<notin> fst ` set tbl"
    using Cons.prems(1) by (simp_all add: e)
  have pos: "\<forall>e\<in>set tbl. 0 < fst (snd e)" using Cons.prems(2) by simp
  from Cons.IH [OF d pos, of "AList.update w0 ?q acc"]
  obtain probs where p: "make_prune_probs t N tbl (AList.update w0 ?q acc) = Inr probs"
    and l: "\<forall>w f s. (w, f, s) \<in> set tbl \<longrightarrow>
           map_of probs w = Some (Fin (1 - sqrt (t * real_of_int N / real_of_int f)))"
    and r: "\<forall>w. w \<notin> fst ` set tbl \<longrightarrow> map_of probs w = map_of (AList.update w0 ?q acc) w"
    by blast
  have 1: "make_prune_probs t N (e # tbl) acc = Inr probs"
    by (simp add: e pp p)
  have 2: "\<forall>w f s. (w, f, s) \<in> set (e # tbl) \<longrightarrow>
           map_of probs w = Some (Fin (1 - sqrt (t * real_of_int N / real_of_int f)))"
    using l r nin by (auto simp: e update_conv')
  have 3: "\<forall>w. w \<notin> fst ` set (e # tbl) \<longrightarrow> map_of probs w = map_of acc w"
    using r by (auto simp: e update_conv')
  from 1 2 3 show ?case by blast
qed

lemma sum_freq_nonneg:
  "\<forall>e\<in>set tbl. 0 < fst (snd e) \<Longrightarrow> 0 \<le> sum_list (map (\<lambda>(_, f, _). f) (tbl :: ns_entry list))"
  by (induction tbl) auto

lemma unclamped_decision:
  "0 \<le> r \<Longrightarrow> float_ge r (Fin v) = (max 0 v \<le> r)"
  by auto

lemma below_floor_nonpositive:
  assumes "0 < f" and "real_of_int f \<le> t * real_of_int N"
  shows "1 - sqrt (t * real_of_int N / real_of_int f) \<le> 0"
proof -
  have "1 \<le> t * real_of_int N / real_of_int f" using assms by (simp add: le_divide_eq)
  then have "1 \<le> sqrt (t * real_of_int N / real_of_int f)" by simp
  then show ?thesis by simp
qed

text \<open>
  Claim C4, amended. For a table of pairwise distinct words with positive frequencies and
  a threshold \<open>t \<ge> 0\<close>, the generator is built and the pruning value it stores for a
  word of frequency \<open>f\<close> is \<open>1 - sqrt (t * N / f)\<close>, not clamped, where \<open>N\<close> is the
  sum of the frequencies of the table. For \<open>f \<le> t * N\<close> the value is at most 0, and
  negative below \<open>t * N\<close>. For a draw \<open>r \<ge> 0\<close> the test \<^verbatim>\<open>p >= prune_probs[w]\<close>
  of \<open>prune\<close> decides as it would with the clamped value \<open>max 0 (1 - sqrt (t * N / f))\<close>.
\<close>

theorem prune_probs_unclamped:
  assumes "distinct (map fst ns_table)" and "\<forall>e\<in>set ns_table. 0 < fst (snd e)"
    and "0 \<le> p_prune_threshold p" and "(w, f, s) \<in> set ns_table"
  shows "\<exists>g. generator_init ns_table p = Inr g
     \<and> map_of (prune_probs g) w =
         Some (Fin (1 - sqrt (p_prune_threshold p
                 * real_of_int (sum_list (map (\<lambda>(_, f, _). f) ns_table)) / real_of_int f)))
     \<and> (real_of_int f \<le> p_prune_threshold p
                 * real_of_int (sum_list (map (\<lambda>(_, f, _). f) ns_table)) \<longrightarrow>
         1 - sqrt (p_prune_threshold p
                 * real_of_int (sum_list (map (\<lambda>(_, f, _). f) ns_table)) / real_of_int f) \<le> 0)
     \<and> (\<forall>r\<ge>0. float_ge r (Fin (1 - sqrt (p_prune_threshold p
                 * real_of_int (sum_list (map (\<lambda>(_, f, _). f) ns_table)) / real_of_int f)))
           = (max 0 (1 - sqrt (p_prune_threshold p
                 * real_of_int (sum_list (map (\<lambda>(_, f, _). f) ns_table)) / real_of_int f)) \<le> r))"
proof -
  let ?N = "sum_list (map (\<lambda>(_, f, _). f) ns_table)"
  let ?t = "p_prune_threshold p"
  have N: "0 \<le> ?N" using assms(2) by (rule sum_freq_nonneg)
  obtain probs where pr: "make_prune_probs ?t ?N ns_table [] = Inr probs"
    and l: "\<forall>w f s. (w, f, s) \<in> set ns_table \<longrightarrow>
           map_of probs w = Some (Fin (1 - sqrt (?t * real_of_int ?N / real_of_int f)))"
    using make_prune_probs_lookup [OF assms(1, 2, 3) N, of "[]"] by blast
  let ?g = "\<lparr>voc = make_voc ns_table, batch_size = p_batch_size p,
             ctx_width = p_context_width p, lowercase = p_lowercase p, prune_probs = probs\<rparr>"
  have 1: "generator_init ns_table p = Inr ?g"
    by (simp add: generator_init_def Let_def pr)
  have 2: "map_of (prune_probs ?g) w = Some (Fin (1 - sqrt (?t * real_of_int ?N / real_of_int f)))"
    using l assms(4) by auto
  have f: "0 < f" using assms(2, 4) by force
  have 3: "real_of_int f \<le> ?t * real_of_int ?N \<longrightarrow>
         1 - sqrt (?t * real_of_int ?N / real_of_int f) \<le> 0"
    using below_floor_nonpositive [OF f] by blast
  have 4: "\<forall>r\<ge>0. float_ge r (Fin (1 - sqrt (?t * real_of_int ?N / real_of_int f)))
           = (max 0 (1 - sqrt (?t * real_of_int ?N / real_of_int f)) \<le> r)"
    using unclamped_decision by blast
  from 1 2 3 4 show ?thesis by blast
qed

theorem prune_probs_unclamped_witness:
  "\<exists>g. generator_init [(''<UNKNOWN>'', 1, 33296), (''the'', 3999, 16743920)] main_params
         = Inr g
     \<and> map_of (prune_probs g) ''<UNKNOWN>'' = Some (Fin (- 1))"
proof -
  let ?T = "[(''<UNKNOWN>'', 1, 33296), (''the'', 3999, 16743920)] :: ns_entry list"
  have d: "distinct (map fst ?T)" by simp
  have pos: "\<forall>e\<in>set ?T. 0 < fst (snd e)" by simp
  have t: "0 \<le> p_prune_threshold main_params" by (simp add: main_params_def)
  have m: "(''<UNKNOWN>'', 1, 33296) \<in> set ?T" by simp
  have v: "1 - sqrt (p_prune_threshold main_params
      * real_of_int (sum_list (map (\<lambda>(_, f, _). f) ?T)) / real_of_int 1) = - 1"
    by (simp add: main_params_def)
  from prune_probs_unclamped [OF d pos t m]
  obtain g where "generator_init ?T main_params = Inr g"
    and "map_of (prune_probs g) ''<UNKNOWN>'' =
      Some (Fin (1 - sqrt (p_prune_threshold main_params
        * real_of_int (sum_list (map (\<lambda>(_, f, _). f) ?T)) / real_of_int 1)))"
    by blast
  then show ?thesis unfolding v by blast
qed

text \<open>
  The claim as stated fails: with the threshold of \<open>main\<close> and 4000 tokens, the value
  stored for a word of frequency 1 is \<open>1 - sqrt 4 = -1\<close>, where the claim has
  \<open>max 0 (-1) = 0\<close>.
\<close>

theorem prune_prob_negative:
  "map_sum id (\<lambda>g. map_of (prune_probs g) ''<UNKNOWN>'')
     (generator_init [(''<UNKNOWN>'', 1, 33296), (''the'', 3999, 16743920)] main_params)
   = Inr (Some (Fin (- 1)))"
  by (simp add: generator_init_def make_voc_def voc_step_def prune_prob_def main_params_def
      Let_def)

section \<open>The slot counts\<close>

text \<open>
  Claim C7 fails on the code when the unknown string is itself a word of the corpus. The
  dictionary \<^verbatim>\<open>ns_table\<close> is keyed by the word, so the smoothed frequency of the word
  overwrites that of the sentinel, while \<^verbatim>\<open>sum_freq\<close> has counted both. With exponent
  1 and 1000 slots (where the floating-point operations are exact), the corpus
  \<^verbatim>\<open><unk> <unk> <unk> b\<close> and the unknown string \<^verbatim>\<open><unk>\<close>, the sentinel has
  frequency 1 and gets \<open>round (1000 * 3 / 5) = 600\<close> slots instead of
  \<open>round (1000 * 1 / 5) = 200\<close>, and the slots sum to 1400: 400 away from the table size,
  for three entries.
\<close>

theorem sentinel_slots_overwritten:
  "make_ns_table
     (main_params\<lparr>p_unknown_str := ''<unk>'', p_ns_exp := 1, p_ns_table_size := 1000\<rparr>)
     ''<unk> <unk> <unk> b''
   = Inr [(''<unk>'', 1, 600), (''<unk>'', 3, 600), (''b'', 1, 200)]"
  by (simp add: make_ns_table_def py_pow_def py_round_def freqs_eval)

text \<open>Without the collision the same corpus shape gives the rounded shares.\<close>

lemma slots_without_collision:
  "make_ns_table (main_params\<lparr>p_ns_exp := 1, p_ns_table_size := 1000\<rparr>) ''a a a b''
   = Inr [(''<UNKNOWN>'', 1, 200), (''a'', 3, 600), (''b'', 1, 200)]"
  by (simp add: make_ns_table_def py_pow_def py_round_def freqs_eval)

text \<open>
  When the unknown string is not a word of the corpus (and \<^verbatim>\<open>voc_size\<close> is at least 1) the
  dictionary has one entry for each word. Then, with the floating-point operations read as
  exact, each entry has the rounded share of the table size that its smoothed frequency
  earns, and the slot counts sum to the table size up to half a slot for each entry.
\<close>

lemma py_round_near: "\<bar>real_of_int (py_round x) - x\<bar> \<le> 1 / 2"
  by (auto simp: py_round_def Let_def abs_if) linarith+

lemma py_round_nonneg: "0 \<le> x \<Longrightarrow> 0 \<le> py_round x"
  by (auto simp: py_round_def Let_def)

lemma rounded_sum_near:
  "\<bar>real_of_int (sum_list (map (\<lambda>x. py_round (g x)) xs)) - sum_list (map g xs)\<bar>
     \<le> real (length xs) / 2"
proof (induction xs)
  case Nil
  show ?case by simp
next
  case (Cons a xs)
  have 1: "\<bar>real_of_int (py_round (g a)) - g a\<bar> \<le> 1 / 2" by (rule py_round_near)
  have 2: "\<bar>real_of_int (sum_list (map (\<lambda>x. py_round (g x)) xs)) - sum_list (map g xs)\<bar>
     \<le> real (length xs) / 2" by (rule Cons.IH)
  have "real_of_int (sum_list (map (\<lambda>x. py_round (g x)) (a # xs))) - sum_list (map g (a # xs))
      = (real_of_int (py_round (g a)) - g a)
        + (real_of_int (sum_list (map (\<lambda>x. py_round (g x)) xs)) - sum_list (map g xs))"
    by simp
  moreover have "real (length (a # xs)) / 2 = 1 / 2 + real (length xs) / 2" by simp
  ultimately show ?case using 1 2 by linarith
qed

lemma ns_freqs_lookup:
  assumes "distinct (map fst fs)" and "\<forall>e\<in>set fs. 1 \<le> snd e"
  shows "\<exists>al. ns_freqs e fs tbl s = Inr (al, s + sum_list (map (\<lambda>a. real (snd a) powr e) fs))
     \<and> (\<forall>a\<in>set fs. map_of al (fst a) = Some (real (snd a) powr e))
     \<and> (\<forall>w. w \<notin> fst ` set fs \<longrightarrow> map_of al w = map_of tbl w)"
  using assms
proof (induction fs arbitrary: tbl s)
  case Nil
  show ?case by simp
next
  case (Cons a fs)
  obtain w f where a: "a = (w, f)" by (cases a)
  have f: "f \<noteq> 0" using Cons.prems(2) by (simp add: a)
  then have pw: "py_pow f e = Inr (real f powr e)" by (simp add: py_pow_def)
  have d: "distinct (map fst fs)" and nin: "w \<notin> fst ` set fs"
    using Cons.prems(1) by (simp_all add: a)
  have pos: "\<forall>e\<in>set fs. 1 \<le> snd e" using Cons.prems(2) by simp
  from Cons.IH [OF d pos, of "AList.update w (real f powr e) tbl" "s + real f powr e"]
  obtain al where n: "ns_freqs e fs (AList.update w (real f powr e) tbl) (s + real f powr e)
      = Inr (al, s + real f powr e + sum_list (map (\<lambda>a. real (snd a) powr e) fs))"
    and l: "\<forall>a\<in>set fs. map_of al (fst a) = Some (real (snd a) powr e)"
    and r: "\<forall>v. v \<notin> fst ` set fs \<longrightarrow>
        map_of al v = map_of (AList.update w (real f powr e) tbl) v"
    by blast
  have 1: "ns_freqs e (a # fs) tbl s
      = Inr (al, s + sum_list (map (\<lambda>a. real (snd a) powr e) (a # fs)))"
    by (simp add: a pw n add.assoc)
  have 2: "\<forall>b\<in>set (a # fs). map_of al (fst b) = Some (real (snd b) powr e)"
    using l r nin by (auto simp: a update_conv')
  have 3: "\<forall>v. v \<notin> fst ` set (a # fs) \<longrightarrow> map_of al v = map_of tbl v"
    using r by (auto simp: a update_conv')
  from 1 2 3 show ?case by blast
qed


lemma sum_list_scaled:
  "sum_list (map (\<lambda>a. h a * c) xs) = sum_list (map h xs) * (c :: real)"
  by (induction xs) (simp_all add: algebra_simps)

lemma freqs_sorted_distinct:
  assumes "1 \<le> p_voc_size p"
    and "p_unknown_str p \<notin> set (corpus_tokens (p_lowercase p) content)"
  shows "distinct (map fst (freqs_sorted p content))"
proof -
  let ?fs = "sorted_desc (count_corpus (p_lowercase p) content)"
  let ?k = "nat (p_voc_size p - 1)"
  have d: "distinct (map fst ?fs)" by (rule sorted_fs_facts)
  have keys: "fst ` set ?fs = set (corpus_tokens (p_lowercase p) content)"
    by (rule sorted_fs_facts)
  have "fst ` set (take ?k ?fs) \<subseteq> fst ` set ?fs" by (meson image_mono set_take_subset)
  with keys assms(2) have "p_unknown_str p \<notin> fst ` set (take ?k ?fs)" by blast
  moreover have "distinct (map fst (take ?k ?fs))"
    using d by (simp add: take_map [symmetric] distinct_take)
  ultimately show ?thesis by (simp add: freqs_sorted_shape [OF assms(1)])
qed

lemma slots_rounded_shares:
  assumes "1 \<le> p_voc_size p"
    and "p_unknown_str p \<notin> set (corpus_tokens (p_lowercase p) content)"
  shows "\<exists>T Z. make_ns_table p content = Inr T
     \<and> Z = sum_list (map (\<lambda>(w, f, s). real_of_int f powr p_ns_exp p) T) \<and> 0 < Z
     \<and> list_all (\<lambda>(w, f, s).
          s = py_round (real_of_int f powr p_ns_exp p * (real_of_int (p_ns_table_size p) / Z))) T
     \<and> \<bar>real_of_int (sum_list (map (\<lambda>(w, f, s). s) T)) - real_of_int (p_ns_table_size p)\<bar>
          \<le> real (length T) / 2"
proof -
  let ?fs = "freqs_sorted p content"
  let ?e = "p_ns_exp p"
  let ?Z = "sum_list (map (\<lambda>a. real (snd a) powr ?e) ?fs)"
  let ?c = "real_of_int (p_ns_table_size p) / ?Z"
  let ?g = "\<lambda>a :: string \<times> nat. real (snd a) powr ?e * ?c"
  let ?T = "map (\<lambda>a. (fst a, int (snd a), py_round (?g a))) ?fs"
  have ne: "?fs \<noteq> []" by (simp add: freqs_sorted_shape [OF assms(1)])
  have pos: "\<forall>e\<in>set ?fs. 1 \<le> snd e" by (rule freqs_sorted_positive [OF assms(1)])
  from ns_freqs_lookup [OF freqs_sorted_distinct [OF assms] pos, of ?e "[]" 0]
  obtain al where r: "ns_freqs ?e ?fs [] 0 = Inr (al, ?Z)"
    and l: "\<forall>a\<in>set ?fs. map_of al (fst a) = Some (real (snd a) powr ?e)"
    by auto
  from ns_freqs_ok [OF pos, of ?e "[]" 0] r ne have Z: "0 < ?Z" by auto
  have T: "make_ns_table p content = Inr ?T"
    using Z l by (auto simp: make_ns_table_def Let_def r case_prod_unfold)
  have Z': "sum_list (map (\<lambda>(w, f, s). real_of_int f powr ?e) ?T) = ?Z"
    by (simp add: comp_def)
  have shares: "list_all (\<lambda>(w, f, s). s = py_round (real_of_int f powr ?e * ?c)) ?T"
    by (simp add: list_all_iff)
  have "sum_list (map ?g ?fs) = ?Z * ?c" by (rule sum_list_scaled)
  also have "\<dots> = real_of_int (p_ns_table_size p)" using Z by simp
  finally have total: "sum_list (map ?g ?fs) = real_of_int (p_ns_table_size p)" .
  have "sum_list (map (\<lambda>(w, f, s). s) ?T) = sum_list (map (\<lambda>a. py_round (?g a)) ?fs)"
    by (simp add: comp_def)
  with rounded_sum_near [of ?g ?fs] total
  have near: "\<bar>real_of_int (sum_list (map (\<lambda>(w, f, s). s) ?T))
      - real_of_int (p_ns_table_size p)\<bar> \<le> real (length ?T) / 2"
    by simp
  from T Z Z' shares near show ?thesis
    by (intro exI [of _ ?T] exI [of _ ?Z]) (simp only: simp_thms)
qed
section \<open>Nearest neighbours\<close>

lemmas nn_eval = nearest_neighbors_def example_model_def twin_model_def model_init_def
  make_ivoc_def ivoc_step_def lookup_word_def embed_def name_pair_def cosine_sim_def dot_def
  topk_low_def topk_high_def Let_def

lemma try_map_ok: "\<forall>x\<in>set xs. f x = Inr (g x) \<Longrightarrow> try_map f xs = Inr (map g xs)"
  by (induction xs) simp_all

lemma voc_lookup:
  assumes "distinct ws" and "w \<in> set ws"
  shows "\<exists>i<length ws. map_of (zip ws [0..<length ws]) w = Some i \<and> ws ! i = w"
proof -
  from assms(2) obtain i where i: "i < length ws" and w: "ws ! i = w"
    by (auto simp: in_set_conv_nth)
  have "map_of (zip ws [0..<length ws]) (ws ! i) = Some ([0..<length ws] ! i)"
    using assms(1) i by (intro map_of_zip_nth) simp_all
  then show ?thesis using i w by auto
qed

lemma ivoc_step_pair: "ivoc_step (w, i) d = AList.update i w d"
  by (simp add: ivoc_step_def)

lemma ivoc_lookup:
  "map_of (make_ivoc (zip ws [0..<length ws])) i = (if i < length ws then Some (ws ! i) else None)"
proof (induction ws rule: rev_induct)
  case Nil
  show ?case by (simp add: make_ivoc_def)
next
  case (snoc w ws)
  have z: "zip (ws @ [w]) [0..<length (ws @ [w])] = zip ws [0..<length ws] @ [(w, length ws)]"
    by simp
  have "map_of (make_ivoc (zip (ws @ [w]) [0..<length (ws @ [w])])) i
      = ((map_of (make_ivoc (zip ws [0..<length ws])))(length ws \<mapsto> w)) i"
    unfolding z by (simp add: make_ivoc_def ivoc_step_pair update_conv')
  then show ?case using snoc.IH by (auto simp: nth_append)
qed

lemma sorted_wrt_tl: "sorted_wrt R xs \<Longrightarrow> sorted_wrt R (tl xs)"
  by (cases xs) simp_all

lemma topk_head_is_query:
  assumes ok: "topk_ok (Suc k) row res" and q: "q < length row"
    and best: "\<forall>j<length row. j \<noteq> q \<longrightarrow> row ! j < row ! q"
  shows "q \<notin> snd ` set (tl res)"
proof
  assume qin: "q \<in> snd ` set (tl res)"
  from ok have len: "length res = Suc k" and dist: "distinct (map snd res)"
    and el: "\<forall>e\<in>set res. snd e < length row \<and> fst e = row ! snd e"
    and srt: "sorted_wrt (\<lambda>a b. fst b \<le> fst a) res"
    by (simp_all add: topk_ok_def)
  from len obtain h t where res: "res = h # t" by (cases res) auto
  from qin obtain e where e: "e \<in> set t" and se: "snd e = q" by (auto simp: res)
  have hq: "snd h \<noteq> q" using dist e se by (auto simp: res)
  have "snd h < length row" and fh: "fst h = row ! snd h" using el by (simp_all add: res)
  with best hq have lt: "fst h < row ! q" by simp
  have "fst e = row ! q" using el e se by (auto simp: res)
  moreover have "fst e \<le> fst h" using srt e by (simp add: res)
  ultimately show False using lt by simp
qed

lemma neighbours_selected:
  assumes d: "distinct ws" and m: "m = model_init (zip ws [0..<length ws]) rows"
    and ok: "topk_ok (Suc k) (score_row sim m w) res"
  shows "distinct (map fst (map (\<lambda>p. (ws ! snd p, fst p)) (tl res)))"
    and "\<exists>h<length (m_w m).
            (\<forall>e\<in>set (map (\<lambda>p. (ws ! snd p, fst p)) (tl res)).
               map_of (m_voc m) (fst e) \<noteq> Some h \<and> snd e \<le> score_row sim m w ! h)
          \<and> (\<forall>j<length (m_w m). j \<noteq> h \<longrightarrow>
                (\<forall>e\<in>set (map (\<lambda>p. (ws ! snd p, fst p)) (tl res)).
                   map_of (m_voc m) (fst e) \<noteq> Some j) \<longrightarrow>
                (\<forall>e\<in>set (map (\<lambda>p. (ws ! snd p, fst p)) (tl res)).
                   score_row sim m w ! j \<le> snd e))"
proof -
  let ?row = "score_row sim m w"
  let ?out = "map (\<lambda>p. (ws ! snd p, fst p)) (tl res)"
  have lw: "length (m_w m) = length ws" by (simp add: m model_init_def)
  have lr: "length ?row = length ws" by (simp add: score_row_def lw)
  from ok have len: "length res = Suc k" and dist: "distinct (map snd res)"
    and el: "\<forall>e\<in>set res. snd e < length ?row \<and> fst e = ?row ! snd e"
    and srt: "sorted_wrt (\<lambda>a b. fst b \<le> fst a) res"
    by (simp_all add: topk_ok_def)
  from ok have rest: "\<forall>j<length ?row. j \<notin> snd ` set res \<longrightarrow> (\<forall>e\<in>set res. ?row ! j \<le> fst e)"
    unfolding topk_ok_def by blast
  from len obtain h t where res: "res = h # t" by (cases res) auto
  have t: "tl res = t" by (simp add: res)
  have ht: "snd h \<notin> snd ` set t" and dt: "distinct (map snd t)"
    using dist by (simp_all add: res)
  have ix: "\<forall>p\<in>set t. snd p < length ws" using el lr by (simp add: res)
  have vl: "\<And>i. i < length ws \<Longrightarrow> map_of (m_voc m) (ws ! i) = Some i"
  proof -
    fix i assume i: "i < length ws"
    have "map_of (zip ws [0..<length ws]) (ws ! i) = Some ([0..<length ws] ! i)"
      using d i by (intro map_of_zip_nth) simp_all
    then show "map_of (m_voc m) (ws ! i) = Some i" using i by (simp add: m model_init_def)
  qed
  have "inj_on (\<lambda>i. ws ! i) (snd ` set t)"
    using ix d by (auto simp: inj_on_def nth_eq_iff_index_eq)
  with dt have "distinct (map (\<lambda>i. ws ! i) (map snd t))"
    by (subst distinct_map) simp
  then show "distinct (map fst ?out)" by (simp add: t comp_def)
  have hl: "snd h < length (m_w m)" and hv: "fst h = ?row ! snd h"
    using el lr lw by (simp_all add: res)
  have a: "\<forall>e\<in>set ?out. map_of (m_voc m) (fst e) \<noteq> Some (snd h) \<and> snd e \<le> ?row ! snd h"
  proof
    fix e assume "e \<in> set ?out"
    then obtain p where p: "p \<in> set t" and e: "e = (ws ! snd p, fst p)" by (auto simp: t)
    have "snd p < length ws" using ix p by blast
    then have "map_of (m_voc m) (fst e) = Some (snd p)" by (simp add: e vl)
    moreover have "snd p \<noteq> snd h" using ht p by (metis imageI)
    moreover have "fst p \<le> fst h" using srt p by (simp add: res)
    ultimately show "map_of (m_voc m) (fst e) \<noteq> Some (snd h) \<and> snd e \<le> ?row ! snd h"
      by (simp add: e hv)
  qed
  have b: "\<forall>j<length (m_w m). j \<noteq> snd h \<longrightarrow>
      (\<forall>e\<in>set ?out. map_of (m_voc m) (fst e) \<noteq> Some j) \<longrightarrow>
      (\<forall>e\<in>set ?out. ?row ! j \<le> snd e)"
  proof (intro allI impI)
    fix j
    assume j: "j < length (m_w m)" and jh: "j \<noteq> snd h"
      and no: "\<forall>e\<in>set ?out. map_of (m_voc m) (fst e) \<noteq> Some j"
    have "j \<notin> snd ` set t"
    proof
      assume "j \<in> snd ` set t"
      then obtain p where p: "p \<in> set t" and sp: "snd p = j" by auto
      have "(ws ! j, fst p) \<in> set ?out" using p sp by (force simp: t)
      with no have "map_of (m_voc m) (ws ! j) \<noteq> Some j" by force
      moreover have "j < length ws" using j lw by simp
      ultimately show False using vl by blast
    qed
    with jh have "j \<notin> snd ` set res" by (simp add: res)
    moreover have "j < length ?row" using j lw lr by simp
    ultimately have all: "\<forall>e\<in>set res. ?row ! j \<le> fst e" using rest by blast
    show "\<forall>e\<in>set ?out. ?row ! j \<le> snd e"
    proof
      fix e assume "e \<in> set ?out"
      then obtain p where p: "p \<in> set t" and e: "e = (ws ! snd p, fst p)" by (auto simp: t)
      have "p \<in> set res" using p by (simp add: res)
      with all show "?row ! j \<le> snd e" by (simp add: e)
    qed
  qed
  from hl a b show "\<exists>h<length (m_w m).
            (\<forall>e\<in>set ?out. map_of (m_voc m) (fst e) \<noteq> Some h \<and> snd e \<le> ?row ! h)
          \<and> (\<forall>j<length (m_w m). j \<noteq> h \<longrightarrow>
                (\<forall>e\<in>set ?out. map_of (m_voc m) (fst e) \<noteq> Some j) \<longrightarrow>
                (\<forall>e\<in>set ?out. ?row ! j \<le> snd e))"
    by blast
qed

lemma neighbours_of_query:
  assumes d: "distinct ws" and m: "m = model_init (zip ws [0..<length ws]) rows"
    and w: "w \<in> set ws" and ok: "topk_ok (Suc k) (score_row sim m w) res"
  shows "try_map (name_pair (m_ivoc m)) (tl res) = Inr (map (\<lambda>p. (ws ! snd p, fst p)) (tl res))"
    and "nn_ok sim m k w (map (\<lambda>p. (ws ! snd p, fst p)) (tl res))"
proof -
  let ?row = "score_row sim m w"
  have lw: "length (m_w m) = length ws" by (simp add: m model_init_def)
  have lr: "length ?row = length ws" by (simp add: score_row_def lw)
  from ok have len: "length res = Suc k" and dist: "distinct (map snd res)"
    and el: "\<forall>e\<in>set res. snd e < length ?row \<and> fst e = ?row ! snd e"
    and srt: "sorted_wrt (\<lambda>a b. fst b \<le> fst a) res"
    by (simp_all add: topk_ok_def)
  have sub: "set (tl res) \<subseteq> set res" by (cases res) auto
  have iv: "\<And>i. i < length ws \<Longrightarrow> map_of (m_ivoc m) i = Some (ws ! i)"
    by (simp add: m model_init_def ivoc_lookup)
  have "\<forall>p\<in>set (tl res). name_pair (m_ivoc m) p = Inr (ws ! snd p, fst p)"
  proof
    fix p assume "p \<in> set (tl res)"
    then have "snd p < length ws" using el sub lr by auto
    then show "name_pair (m_ivoc m) p = Inr (ws ! snd p, fst p)"
      by (cases p) (simp add: name_pair_def iv)
  qed
  then show "try_map (name_pair (m_ivoc m)) (tl res) = Inr (map (\<lambda>p. (ws ! snd p, fst p)) (tl res))"
    by (rule try_map_ok)
  let ?out = "map (\<lambda>p. (ws ! snd p, fst p)) (tl res)"
  have 1: "length ?out = k" using len by simp
  have "sorted_wrt (\<lambda>a b. fst b \<le> fst a) (tl res)" using srt by (rule sorted_wrt_tl)
  then have 2: "sorted_wrt (\<lambda>a b. snd b \<le> snd a) ?out" by (simp add: sorted_wrt_map)
  have vl: "\<And>i. i < length ws \<Longrightarrow> map_of (m_voc m) (ws ! i) = Some i"
  proof -
    fix i assume i: "i < length ws"
    have "map_of (zip ws [0..<length ws]) (ws ! i) = Some ([0..<length ws] ! i)"
      using d i by (intro map_of_zip_nth) simp_all
    then show "map_of (m_voc m) (ws ! i) = Some i" using i by (simp add: m model_init_def)
  qed
  have 3: "\<forall>e\<in>set ?out. \<exists>j<length (m_w m).
            map_of (m_voc m) (fst e) = Some j \<and> snd e = ?row ! j"
  proof
    fix e assume "e \<in> set ?out"
    then obtain p where p: "p \<in> set (tl res)" and e: "e = (ws ! snd p, fst p)" by auto
    have "snd p < length ws" and "fst p = ?row ! snd p" using el sub lr p by auto
    then show "\<exists>j<length (m_w m). map_of (m_voc m) (fst e) = Some j \<and> snd e = ?row ! j"
      using vl by (auto simp: e lw)
  qed
  obtain q where q: "q < length ws" and wq: "ws ! q = w"
    using w by (auto simp: in_set_conv_nth)
  have tq: "the (map_of (m_voc m) w) = q" using vl [OF q] wq by simp
  have 4: "(\<forall>j<length (m_w m). j \<noteq> the (map_of (m_voc m) w) \<longrightarrow>
              ?row ! j < ?row ! the (map_of (m_voc m) w)) \<longrightarrow> w \<notin> fst ` set ?out"
  proof
    assume "\<forall>j<length (m_w m). j \<noteq> the (map_of (m_voc m) w) \<longrightarrow>
              ?row ! j < ?row ! the (map_of (m_voc m) w)"
    then have best: "\<forall>j<length ?row. j \<noteq> q \<longrightarrow> ?row ! j < ?row ! q"
      by (simp add: tq lw lr)
    have nq: "q \<notin> snd ` set (tl res)"
      using ok _ best by (rule topk_head_is_query) (simp add: lr q)
    show "w \<notin> fst ` set ?out"
    proof
      assume "w \<in> fst ` set ?out"
      then obtain p where p: "p \<in> set (tl res)" and wp: "ws ! snd p = w" by auto
      have sp: "snd p < length ws" using el sub lr p by auto
      have "ws ! snd p = ws ! q" using wq wp by simp
      then have "snd p = q" using nth_eq_iff_index_eq [OF d sp q] by simp
      with p nq show False by force
    qed
  qed
  note 5 = neighbours_selected(1) [OF d m ok]
  note 6 = neighbours_selected(2) [OF d m ok]
  from 1 2 5 3 6 4 show "nn_ok sim m k w ?out" unfolding nn_ok_def by (intro conjI)
qed

lemma example_model_shape:
  "example_model = model_init (zip [''<UNKNOWN>'', ''a'', ''b''] [0..<length [''<UNKNOWN>'', ''a'', ''b'']])
     (\<lambda>i. [[1, 0], [0, 1], [0, - 1]] ! i)"
  by (simp add: example_model_def upt_rec numeral_2_eq_2)

text \<open>
  Claim C6, amended. For a vocabulary of pairwise distinct words numbered from 0, with one
  row of embeddings per word, at least one query word, all of the vocabulary, and
  \<open>0 < k < V\<close>, where \<open>topk\<close> selects as documented on the score rows of the queries:
  \<open>nearest_neighbors\<close> returns, per query, the entries that \<open>topk\<close> ranks second to
  \<open>(k + 1)\<close>-th on the query's row, each as the word of its index with its value. These
  are \<open>k\<close> pairs of pairwise distinct vocabulary words, each with the similarity of the
  query's row with that word's row, in descending order of similarity; one row outside the
  list scores at least as much as every listed word and every other row outside it at most
  as much; and the query word is absent from its own list whenever its similarity with
  itself is strictly greater than its similarity with every other row.
\<close>

theorem nearest_neighbors_ranked:
  assumes d: "distinct ws" and m: "m = model_init (zip ws [0..<length ws]) rows"
    and words: "set words \<subseteq> set ws" and ne: "words \<noteq> []"
    and k0: "0 < k" and k1: "k < length ws"
    and tk: "\<forall>w\<in>set words.
               topk_ok (Suc k) (score_row sim m w) (topk (Suc k) (score_row sim m w))"
  shows "nearest_neighbors sim topk m words k
       = Inr (map (\<lambda>w. map (\<lambda>p. (ws ! snd p, fst p)) (tl (topk (Suc k) (score_row sim m w))))
                words)
     \<and> list_all2 (nn_ok sim m k) words
         (map (\<lambda>w. map (\<lambda>p. (ws ! snd p, fst p)) (tl (topk (Suc k) (score_row sim m w))))
            words)"
proof -
  let ?idx = "\<lambda>w. the (map_of (m_voc m) w)"
  let ?res = "\<lambda>w. topk (Suc k) (score_row sim m w)"
  let ?g = "map (\<lambda>p. (ws ! snd p, fst p))"
  have lw: "length (m_w m) = length ws" by (simp add: m model_init_def)
  have vm: "m_voc m = zip ws [0..<length ws]" by (simp add: m model_init_def)
  have ix: "\<forall>w\<in>set words. lookup_word (m_voc m) w = Inr (?idx w) \<and> ?idx w < length ws"
  proof
    fix w assume "w \<in> set words"
    then have "w \<in> set ws" using words by blast
    from voc_lookup [OF d this] obtain i where "i < length ws"
      and "map_of (zip ws [0..<length ws]) w = Some i" by blast
    then show "lookup_word (m_voc m) w = Inr (?idx w) \<and> ?idx w < length ws"
      by (simp add: lookup_word_def vm)
  qed
  then have s1: "try_map (lookup_word (m_voc m)) words = Inr (map ?idx words)"
    by (intro try_map_ok) blast
  have "\<forall>i\<in>set (map ?idx words). embed (m_w m) i = Inr (m_w m ! i)"
    using ix by (auto simp: embed_def lw)
  then have s2: "try_map (embed (m_w m)) (map ?idx words)
      = Inr (map (\<lambda>i. m_w m ! i) (map ?idx words))"
    by (rule try_map_ok)
  have sc: "map (\<lambda>q. map (sim q) (m_w m)) (map (\<lambda>i. m_w m ! i) (map ?idx words))
      = map (score_row sim m) words"
    by (simp add: score_row_def comp_def)
  have "\<forall>x\<in>set (map (\<lambda>w. tl (?res w)) words).
      try_map (name_pair (m_ivoc m)) x = Inr (?g x)"
  proof
    fix x assume "x \<in> set (map (\<lambda>w. tl (?res w)) words)"
    then obtain w where w: "w \<in> set words" and x: "x = tl (?res w)" by auto
    have "w \<in> set ws" using w words by blast
    from neighbours_of_query(1) [OF d m this] tk w
    show "try_map (name_pair (m_ivoc m)) x = Inr (?g x)" unfolding x by blast
  qed
  then have s3: "try_map (try_map (name_pair (m_ivoc m))) (map (\<lambda>w. tl (?res w)) words)
      = Inr (map ?g (map (\<lambda>w. tl (?res w)) words))"
    by (rule try_map_ok)
  have E: "map (\<lambda>x. tl (topk (Suc k) (map (sim (m_w m ! the (map_of (m_voc m) x))) (m_w m))))
      words = map (\<lambda>w. tl (?res w)) words"
    by (simp add: score_row_def)
  have run: "nearest_neighbors sim topk m words k
      = Inr (map (\<lambda>w. ?g (tl (?res w))) words)"
    using k0 k1 ne by (simp add: nearest_neighbors_def s1 s2 lw comp_def E s3)
  have "\<forall>w\<in>set words. nn_ok sim m k w (?g (tl (?res w)))"
  proof
    fix w assume w: "w \<in> set words"
    have "w \<in> set ws" using w words by blast
    from neighbours_of_query(2) [OF d m this] tk w
    show "nn_ok sim m k w (?g (tl (?res w)))" by blast
  qed
  then have "list_all2 (nn_ok sim m k) words (map (\<lambda>w. ?g (tl (?res w))) words)"
    by (simp add: list_all2_map2 list_all2_same)
  with run show ?thesis by simp
qed

theorem nearest_neighbors_ranked_witness:
  "nearest_neighbors cosine_sim topk_low example_model [''a''] 1 = Inr [[(''<UNKNOWN>'', 0)]]
     \<and> list_all2 (nn_ok cosine_sim example_model 1) [''a''] [[(''<UNKNOWN>'', 0)]]"
proof -
  have d: "distinct [''<UNKNOWN>'', ''a'', ''b'']" by simp
  have w: "set [''a''] \<subseteq> set [''<UNKNOWN>'', ''a'', ''b'']" by simp
  have r: "score_row cosine_sim example_model ''a'' = [0, 1, - 1]"
    by (simp add: score_row_def example_model_def model_init_def cosine_sim_def dot_def upt_rec)
  have t: "topk_low (Suc (Suc 0)) [0, 1, - 1] = [(1, Suc 0), (0, 0)]"
    by (simp add: topk_low_def upt_rec)
  have ok: "topk_ok (Suc (Suc 0)) [0, 1, - 1] [(1, Suc 0), (0, 0)]"
    by (simp add: topk_ok_def less_Suc_eq)
  have tk: "\<forall>w\<in>set [''a'']. topk_ok (Suc 1) (score_row cosine_sim example_model w)
      (topk_low (Suc 1) (score_row cosine_sim example_model w))"
    by (simp add: r t ok)
  have ne: "[''a''] \<noteq> []" by simp
  have k0: "0 < (1::nat)" by simp
  have k1: "(1::nat) < length [''<UNKNOWN>'', ''a'', ''b'']" by simp
  have e: "map (\<lambda>w. map (\<lambda>p. ([''<UNKNOWN>'', ''a'', ''b''] ! snd p, fst p))
                 (tl (topk_low (Suc 1) (score_row cosine_sim example_model w)))) [''a'']
      = [[(''<UNKNOWN>'', 0)]]"
    by (simp add: r t)
  show ?thesis
    using nearest_neighbors_ranked [where sim = cosine_sim and topk = topk_low
          and m = example_model and k = 1 and words = "[''a'']"
          and ws = "[''<UNKNOWN>'', ''a'', ''b'']"
          and rows = "\<lambda>i. [[1 :: real, 0], [0, 1], [0, - 1]] ! i",
          OF d example_model_shape w ne k0 k1 tk]
    unfolding e .
qed

lemma nearest_neighbors_example: "nearest_neighbors cosine_sim topk_low example_model [''a''] 1
   = Inr [[(''<UNKNOWN>'', 0)]]"
  by (simp add: nn_eval)

text \<open>
  The description of one list admits only what is ranked after the first entry: for the
  query \<^verbatim>\<open>a\<close> of the example, whose scores are 0, 1 and -1, the list made of the last
  word is refused, and so is a list that repeats a word.
\<close>

lemma nn_ok_rejects_lower_ranked:
  "\<not> nn_ok cosine_sim example_model 1 ''a'' [(''b'', - 1)]
   \<and> \<not> nn_ok cosine_sim example_model 2 ''a'' [(''b'', - 1), (''b'', - 1)]"
proof -
  have r: "score_row cosine_sim example_model ''a'' = [0, 1, - 1]"
    by (simp add: score_row_def example_model_def model_init_def cosine_sim_def dot_def upt_rec)
  have v: "m_voc example_model = [(''<UNKNOWN>'', 0), (''a'', 1), (''b'', 2)]"
    and l: "length (m_w example_model) = 3"
    by (simp_all add: example_model_def model_init_def)
  have "\<not> nn_ok cosine_sim example_model 1 ''a'' [(''b'', - 1)]"
    unfolding nn_ok_def r v l
    by (simp add: less_Suc_eq numeral_3_eq_3 all_conj_distrib ex_disj_distrib)
  moreover have "\<not> nn_ok cosine_sim example_model 2 ''a'' [(''b'', - 1), (''b'', - 1)]"
    unfolding nn_ok_def by simp
  ultimately show ?thesis by simp
qed

text \<open>
  The claim as stated fails on a tie. The method drops the first of the \<open>k + 1\<close>
  selected entries, whichever it is. With two words on the same vector every score is 1:
  when ties go to the lower index the query \<^verbatim>\<open>a\<close> gets itself as its neighbour, and
  when they go to the higher index the query \<^verbatim>\<open><UNKNOWN>\<close> does.
\<close>

theorem query_returned_on_tie: "nearest_neighbors cosine_sim topk_low twin_model [''a''] 1 = Inr [[(''a'', 1)]]
   \<and> nearest_neighbors cosine_sim topk_high twin_model [''<UNKNOWN>''] 1
       = Inr [[(''<UNKNOWN>'', 1)]]"
  by (simp add: nn_eval)

text \<open>
  Whatever \<open>topk\<close> selects on the row of two equal scores, both queries get the same
  list, so one of the two words is returned as its own neighbour.
\<close>

lemma tie_returns_a_query:
  assumes "topk_ok 2 [1, 1] (topk 2 [1, 1])"
  shows "nearest_neighbors cosine_sim topk twin_model [''<UNKNOWN>'', ''a''] 1
           = Inr [[(''<UNKNOWN>'', 1)], [(''<UNKNOWN>'', 1)]]
       \<or> nearest_neighbors cosine_sim topk twin_model [''<UNKNOWN>'', ''a''] 1
           = Inr [[(''a'', 1)], [(''a'', 1)]]"
proof -
  from assms have "length (topk 2 [1, 1]) = 2" by (simp add: topk_ok_def)
  then obtain a b where ab: "topk 2 [1, 1] = [a, b]"
    by (auto simp: length_Suc_conv numeral_2_eq_2)
  then have ab': "topk (Suc (Suc 0)) [1, 1] = [a, b]" by (simp add: numeral_2_eq_2)
  from assms have "snd b < 2" "fst b = [1, 1] ! snd b"
    by (simp_all add: topk_ok_def ab)
  then have "b = (1, 0) \<or> b = (1, Suc 0)"
    by (cases b) (auto simp: less_Suc_eq numeral_2_eq_2)
  then show ?thesis
    by (auto simp: nn_eval ab')
qed

text \<open>
  The number of neighbours must be positive and below the size of the vocabulary: 0 makes
  the method read an attribute the model does not have, and \<open>k + 1\<close> beyond the number
  of rows is refused by \<open>topk\<close>.
\<close>

lemma nearest_neighbors_raises: "nearest_neighbors cosine_sim topk_low example_model [''a''] 0 = Inl AttributeError
  \<and> nearest_neighbors cosine_sim topk_low example_model [''a''] 3 = Inl RuntimeError"
  by (simp add: nn_eval)

text \<open>
  The vocabulary of the theorem is the one the generator builds from a table whose words
  are distinct: each word with its position.
\<close>

lemma update_new: "k \<notin> fst ` set al \<Longrightarrow> AList.update k v al = al @ [(k, v)]"
  by (induction al) auto

lemma make_voc_zip:
  "distinct (map fst tbl) \<Longrightarrow> make_voc tbl = zip (map fst tbl) [0..<length tbl]"
proof (induction tbl rule: rev_induct)
  case Nil
  show ?case by (simp add: make_voc_def)
next
  case (snoc x xs)
  obtain w f s where x: "x = (w, f, s)" by (cases x)
  have d: "distinct (map fst xs)" and nin: "w \<notin> fst ` set xs"
    using snoc.prems by (simp_all add: x)
  have ih: "make_voc xs = zip (map fst xs) [0..<length xs]" using snoc.IH [OF d] .
  have "fst ` set (make_voc xs) = fst ` set xs" by (rule make_voc_keys)
  with nin have nk: "w \<notin> fst ` set (make_voc xs)" by simp
  have "make_voc (xs @ [x]) = voc_step (length xs, x) (make_voc xs)"
    by (simp add: make_voc_def enumerate_append_eq)
  also have "\<dots> = make_voc xs @ [(w, length xs)]"
    by (simp add: x voc_step_entry update_new [OF nk])
  finally show ?case by (simp add: ih x)
qed
end
